theory Spec2Isabelle
  imports Complex_Main "HOL-Library.Multiset"
begin

section \<open>Change records\<close>

text \<open>
  Rows are JavaScript objects: an item of type \<open>'a\<close> is the reference to a row object
  (so \<open>=\<close> on items is the \<open>===\<close> of the source; only the root collection, which
  takes rows of any kind, tests one for truthiness, and is told which rows are truthy), and what
  the row currently holds is read through accessors (\<open>getItemId\<close>, a predicate, a sort
  value) that are passed to the operations as they stand at the time of the call.
  \<open>null\<close> and \<open>undefined\<close> are \<open>None\<close>: the fields of a change record that can
  hold them are options, and so are the arguments of the factories, which store what
  they are given. A field that a factory leaves unset is \<open>None\<close> (the indices are
  always set, to \<open>-1\<close> where they mean nothing), except that \<open>move\<close> and \<open>replace\<close>
  set both indices.
\<close>

datatype CollectionChangeType = Insert | Update | Remove | Move | Reset | Replace | Scroll

record 'a CollectionChange =
  ctype :: CollectionChangeType
  item :: "'a option"
  itemId :: "string option"
  newIndex :: int
  oldItem :: "'a option"
  oldItemId :: "string option"
  oldIndex :: int
  isNewlyAdded :: "bool option"

definition change_insert ::
  "'a option \<Rightarrow> string option \<Rightarrow> int \<Rightarrow> bool option \<Rightarrow> 'a CollectionChange" where
  "change_insert it iid index isNew =
     \<lparr>ctype = Insert, item = it, itemId = iid, newIndex = index,
      oldItem = None, oldItemId = None, oldIndex = -1, isNewlyAdded = isNew\<rparr>"

definition change_remove :: "'a option \<Rightarrow> string option \<Rightarrow> int \<Rightarrow> 'a CollectionChange" where
  "change_remove it iid index =
     \<lparr>ctype = Remove, item = it, itemId = iid, newIndex = -1,
      oldItem = None, oldItemId = None, oldIndex = index, isNewlyAdded = None\<rparr>"

text \<open>The \<open>replace\<close> factory takes an \<open>isNewlyAdded\<close> argument and does not store it.\<close>

definition change_replace ::
  "'a option \<Rightarrow> string option \<Rightarrow> int \<Rightarrow> 'a option \<Rightarrow> string option \<Rightarrow> int \<Rightarrow> bool
     \<Rightarrow> 'a CollectionChange" where
  "change_replace oIt oId oIndex nIt nId nIndex isNew =
     \<lparr>ctype = Replace, item = nIt, itemId = nId, newIndex = nIndex,
      oldItem = oIt, oldItemId = oId, oldIndex = oIndex, isNewlyAdded = None\<rparr>"

definition change_update :: "'a option \<Rightarrow> string option \<Rightarrow> int \<Rightarrow> 'a CollectionChange" where
  "change_update it iid index =
     \<lparr>ctype = Update, item = it, itemId = iid, newIndex = index,
      oldItem = None, oldItemId = None, oldIndex = -1, isNewlyAdded = None\<rparr>"

definition change_move :: "'a option \<Rightarrow> string option \<Rightarrow> int \<Rightarrow> int \<Rightarrow> 'a CollectionChange" where
  "change_move it iid oIndex nIndex =
     \<lparr>ctype = Move, item = it, itemId = iid, newIndex = nIndex,
      oldItem = None, oldItemId = None, oldIndex = oIndex, isNewlyAdded = None\<rparr>"

definition change_reset :: "'a CollectionChange" where
  "change_reset =
     \<lparr>ctype = Reset, item = None, itemId = None, newIndex = -1,
      oldItem = None, oldItemId = None, oldIndex = -1, isNewlyAdded = None\<rparr>"

definition change_scroll :: "'a CollectionChange" where
  "change_scroll =
     \<lparr>ctype = Scroll, item = None, itemId = None, newIndex = -1,
      oldItem = None, oldItemId = None, oldIndex = -1, isNewlyAdded = None\<rparr>"

text \<open>
  \<open>Array.prototype.indexOf\<close>: the first position of the element, or \<open>-1\<close>.
  \<open>Array.prototype.splice(index, 0, x)\<close> inserts at \<open>index\<close>, clamped to the length.
\<close>

fun indexOf :: "'a list \<Rightarrow> 'a \<Rightarrow> int" where
  "indexOf [] x = -1"
| "indexOf (y # ys) x = (if y = x then 0 else (let i = indexOf ys x in if i = -1 then -1 else i + 1))"

definition spliceIn :: "nat \<Rightarrow> 'a \<Rightarrow> 'a list \<Rightarrow> 'a list" where
  "spliceIn index x xs = take index xs @ [x] @ drop index xs"

definition spliceOut :: "nat \<Rightarrow> 'a list \<Rightarrow> 'a list" where
  "spliceOut index xs = take index xs @ drop (Suc index) xs"

section \<open>The event bus\<close>

text \<open>
  A subscriber is a closure, known by its reference \<open>'cb\<close>. \<open>subscribe\<close> pushes it;
  the function it returns removes its first occurrence, or warns on the console when
  there is none (the flag of \<open>unsubscribe\<close>).
\<close>

definition subscribe :: "'cb \<Rightarrow> 'cb list \<Rightarrow> 'cb list" where
  "subscribe callback callbacks = callbacks @ [callback]"

definition unsubscribe :: "'cb \<Rightarrow> 'cb list \<Rightarrow> 'cb list \<times> bool" where
  "unsubscribe callback callbacks =
     (if indexOf callbacks callback = -1 then (callbacks, True)
      else (spliceOut (nat (indexOf callbacks callback)) callbacks, False))"

text \<open>
  \<open>collect(handler)\<close> subscribes a fresh collecting closure, runs the handler and
  cancels the subscription. The handler is any code: it is given the subscriber list it
  finds, leaves the list it leaves, and either returns (\<open>None\<close>) or throws (\<open>Some e\<close>).
  There is no \<open>try\<close>/\<open>finally\<close> in \<open>collect\<close>: a throw leaves it at once.
\<close>

definition collect ::
  "'cb \<Rightarrow> ('cb list \<Rightarrow> 'cb list \<times> 'e option) \<Rightarrow> 'cb list \<Rightarrow> 'cb list \<times> 'e option" where
  "collect collector handler callbacks =
     (let subscribed = subscribe collector callbacks;
          (after, thrown) = handler subscribed
      in case thrown of
           Some e \<Rightarrow> (after, Some e)
         | None \<Rightarrow> (fst (unsubscribe collector after), None))"

section \<open>The root collection\<close>

datatype error = DuplicateId string | NegativeOffset | NegativeSize | TypeError

text \<open>
  \<open>Array.prototype.splice(index, \<dots>)\<close> starts at \<open>index\<close> when it is within the array,
  at the length when it is past the end, and counts a negative \<open>index\<close> from the end (not
  before the first element).
\<close>

definition spliceStart :: "int \<Rightarrow> nat \<Rightarrow> nat" where
  "spliceStart index len =
     (if index < 0 then nat (max (int len + index) 0) else nat (min index (int len)))"

text \<open>
  A row of the collection is any value but \<open>null\<close> and \<open>undefined\<close> (with either, \<open>add\<close>
  throws at \<open>notifyItem.subscribeChange\<close>, if not before, and has changed nothing);
  \<open>truthy\<close> tells whether a row is truthy, as every object is and the empty string is
  not. The array \<open>items\<close> can come to hold \<open>undefined\<close> (\<open>None\<close>), which \<open>move\<close> inserts
  when it has spliced out nothing.

  \<open>itemById\<close> is a plain JavaScript object used as a dictionary. Reading
  \<open>itemById[id]\<close> goes through the prototype chain, and \<open>!!itemById[id]\<close> asks whether
  what was found is truthy: it holds when a truthy row is stored under \<open>id\<close>, and when
  nothing is stored under \<open>id\<close> and a plain object inherits a member of that name
  (\<open>inherited\<close>; the members of \<open>Object.prototype\<close> are functions, and \<open>__proto__\<close> reads
  as \<open>Object.prototype\<close>, all of them truthy). It does not hold for an identifier under
  which a falsy row is stored. \<open>delete\<close> removes what is stored and leaves what is
  inherited.
\<close>

definition lookupTruthy :: "('a \<Rightarrow> bool) \<Rightarrow> (string \<Rightarrow> bool) \<Rightarrow> (string \<rightharpoonup> 'a) \<Rightarrow> string \<Rightarrow> bool" where
  "lookupTruthy truthy inherited dict key =
     (case dict key of Some row \<Rightarrow> truthy row | None \<Rightarrow> inherited key)"

text \<open>The names that a plain object inherits from \<open>Object.prototype\<close> as it is defined by the language.\<close>

definition objectPrototypeMember :: "string \<Rightarrow> bool" where
  "objectPrototypeMember key =
     (key \<in> set [''constructor'', ''hasOwnProperty'', ''isPrototypeOf'', ''propertyIsEnumerable'',
                 ''toLocaleString'', ''toString'', ''valueOf'', ''__proto__'',
                 ''__defineGetter__'', ''__defineSetter__'', ''__lookupGetter__'', ''__lookupSetter__''])"

text \<open>
  \<open>ds_notifying\<close> lists the subscriptions of the collection to the change notification
  of its rows, one for every row added that has a \<open>subscribeChange\<close> function
  (\<open>subscribeItemUpdates\<close>). What \<open>subscribeChange\<close> returns is dropped: no subscription
  is ever cancelled, not by \<open>removeAt\<close> and not by \<open>clear\<close>.
\<close>

record 'a DataSource =
  ds_items :: "'a option list"
  ds_itemById :: "string \<rightharpoonup> 'a"
  ds_notifying :: "'a list"

definition newDataSource :: "'a DataSource" where
  "newDataSource = \<lparr>ds_items = [], ds_itemById = Map.empty, ds_notifying = []\<rparr>"

definition subscribeItemUpdates :: "('a \<Rightarrow> bool) \<Rightarrow> 'a DataSource \<Rightarrow> 'a \<Rightarrow> 'a DataSource" where
  "subscribeItemUpdates hasSubscribeChange ds it =
     (if hasSubscribeChange it then ds\<lparr>ds_notifying := ds_notifying ds @ [it]\<rparr> else ds)"

text \<open>
  Every operation returns the error thrown (if any), the collection as the call leaves
  it, and the changes raised, in order (the listeners of \<open>changed\<close> are taken to return).
  The identifier accessor \<open>getItemId\<close> is a function of the row.
\<close>

definition add ::
  "('a \<Rightarrow> bool) \<Rightarrow> (string \<Rightarrow> bool) \<Rightarrow> ('a \<Rightarrow> string) \<Rightarrow> ('a \<Rightarrow> bool) \<Rightarrow> 'a DataSource \<Rightarrow> 'a
     \<Rightarrow> error option \<times> 'a DataSource \<times> 'a CollectionChange list" where
  "add truthy inherited getItemId hasSubscribeChange ds it =
     (let iid = getItemId it in
      if lookupTruthy truthy inherited (ds_itemById ds) iid then (Some (DuplicateId iid), ds, [])
      else
        let ds1 = subscribeItemUpdates hasSubscribeChange ds it;
            ds2 = ds1\<lparr>ds_items := ds_items ds1 @ [Some it]\<rparr>;
            ev = change_insert (Some it) (Some iid) (int (length (ds_items ds2)) - 1) (Some True);
            ds3 = ds2\<lparr>ds_itemById := (ds_itemById ds2)(iid \<mapsto> it)\<rparr>
        in (None, ds3, [ev]))"

fun addRange_loop ::
  "('a \<Rightarrow> bool) \<Rightarrow> (string \<Rightarrow> bool) \<Rightarrow> ('a \<Rightarrow> string) \<Rightarrow> ('a \<Rightarrow> bool) \<Rightarrow> 'a list \<Rightarrow> 'a DataSource
     \<Rightarrow> error option \<times> 'a DataSource" where
  "addRange_loop truthy inherited getItemId hasSubscribeChange [] ds = (None, ds)"
| "addRange_loop truthy inherited getItemId hasSubscribeChange (it # rest) ds =
     (let iid = getItemId it in
      if lookupTruthy truthy inherited (ds_itemById ds) iid then (Some (DuplicateId iid), ds)
      else
        let ds1 = subscribeItemUpdates hasSubscribeChange ds it;
            ds2 = ds1\<lparr>ds_items := ds_items ds1 @ [Some it]\<rparr>;
            ds3 = ds2\<lparr>ds_itemById := (ds_itemById ds2)(iid \<mapsto> it)\<rparr>
        in addRange_loop truthy inherited getItemId hasSubscribeChange rest ds3)"

definition addRange ::
  "('a \<Rightarrow> bool) \<Rightarrow> (string \<Rightarrow> bool) \<Rightarrow> ('a \<Rightarrow> string) \<Rightarrow> ('a \<Rightarrow> bool) \<Rightarrow> 'a DataSource \<Rightarrow> 'a list
     \<Rightarrow> error option \<times> 'a DataSource \<times> 'a CollectionChange list" where
  "addRange truthy inherited getItemId hasSubscribeChange ds its =
     (case addRange_loop truthy inherited getItemId hasSubscribeChange its ds of
        (Some e, ds') \<Rightarrow> (Some e, ds', [])
      | (None, ds') \<Rightarrow> (None, ds', [change_reset, change_scroll]))"

text \<open>
  The callback that \<open>subscribeItemUpdates\<close> gives to a row: when the row \<open>it\<close> notifies a
  change, every subscription that the collection holds to it raises one \<open>Update\<close>, with
  the identifier the row had when it was added and with its position now, that is \<open>-1\<close>
  when the collection no longer holds it.
\<close>

definition itemChanged :: "('a \<Rightarrow> string) \<Rightarrow> 'a DataSource \<Rightarrow> 'a \<Rightarrow> 'a CollectionChange list" where
  "itemChanged getItemId ds it =
     map (\<lambda>s. change_update (Some it) (Some (getItemId s)) (indexOf (ds_items ds) (Some it)))
       (filter (\<lambda>s. s = it) (ds_notifying ds))"

text \<open>
  \<open>removeAt\<close> and \<open>move\<close> apply the accessor to what \<open>splice(index, 1)[0]\<close> gave, which
  is \<open>undefined\<close> when the index is past the end (or names an \<open>undefined\<close> element).
  \<open>idOfUndefined\<close> is what the accessor does then: it throws (\<open>None\<close>, as an accessor that
  reads a property of its row does) or returns an identifier. The array has been changed
  by then. \<open>console.assert\<close> only logs.
\<close>

definition idOf :: "('a \<Rightarrow> string) \<Rightarrow> string option \<Rightarrow> 'a option \<Rightarrow> string option" where
  "idOf getItemId idOfUndefined v = (case v of Some row \<Rightarrow> Some (getItemId row) | None \<Rightarrow> idOfUndefined)"

definition removeAt ::
  "('a \<Rightarrow> string) \<Rightarrow> string option \<Rightarrow> 'a DataSource \<Rightarrow> int
     \<Rightarrow> error option \<times> 'a DataSource \<times> 'a CollectionChange list" where
  "removeAt getItemId idOfUndefined ds index =
     (let start = spliceStart index (length (ds_items ds));
          removed = (if start < length (ds_items ds) then ds_items ds ! start else None);
          ds1 = ds\<lparr>ds_items := spliceOut start (ds_items ds)\<rparr>
      in case idOf getItemId idOfUndefined removed of
           None \<Rightarrow> (Some TypeError, ds1, [])
         | Some iid \<Rightarrow>
             (None, ds1\<lparr>ds_itemById := (ds_itemById ds1)(iid := None)\<rparr>,
              [change_remove removed (Some iid) index]))"

definition move ::
  "('a \<Rightarrow> string) \<Rightarrow> string option \<Rightarrow> 'a DataSource \<Rightarrow> int \<Rightarrow> int
     \<Rightarrow> error option \<times> 'a DataSource \<times> 'a CollectionChange list" where
  "move getItemId idOfUndefined ds oIndex nIndex =
     (let start = spliceStart oIndex (length (ds_items ds));
          it = (if start < length (ds_items ds) then ds_items ds ! start else None);
          items1 = spliceOut start (ds_items ds);
          ds1 = ds\<lparr>ds_items := spliceIn (spliceStart nIndex (length items1)) it items1\<rparr>
      in case idOf getItemId idOfUndefined it of
           None \<Rightarrow> (Some TypeError, ds1, [])
         | Some iid \<Rightarrow> (None, ds1, [change_move it (Some iid) oIndex nIndex]))"

definition ds_reset :: "'a DataSource \<Rightarrow> error option \<times> 'a DataSource \<times> 'a CollectionChange list" where
  "ds_reset ds = (None, ds, [change_reset])"

definition clear :: "'a DataSource \<Rightarrow> error option \<times> 'a DataSource \<times> 'a CollectionChange list" where
  "clear ds = ds_reset (ds\<lparr>ds_items := [], ds_itemById := Map.empty\<rparr>)"

text \<open>
  The calls that change a collection, and the collection after a sequence of them, made
  one after the other on a new collection (a call that throws leaves the collection as
  it left it, and the next call finds it so). The constructor adds its initial rows by
  \<open>add\<close>.
\<close>

datatype 'a call =
    CallAdd 'a
  | CallAddRange "'a list"
  | CallRemoveAt int
  | CallMove int int
  | CallReset
  | CallClear

fun ds_call ::
  "('a \<Rightarrow> bool) \<Rightarrow> (string \<Rightarrow> bool) \<Rightarrow> ('a \<Rightarrow> string) \<Rightarrow> string option \<Rightarrow> ('a \<Rightarrow> bool)
     \<Rightarrow> 'a call \<Rightarrow> 'a DataSource \<Rightarrow> error option \<times> 'a DataSource \<times> 'a CollectionChange list" where
  "ds_call truthy inherited getItemId idOfUndefined h (CallAdd it) ds = add truthy inherited getItemId h ds it"
| "ds_call truthy inherited getItemId idOfUndefined h (CallAddRange its) ds = addRange truthy inherited getItemId h ds its"
| "ds_call truthy inherited getItemId idOfUndefined h (CallRemoveAt index) ds = removeAt getItemId idOfUndefined ds index"
| "ds_call truthy inherited getItemId idOfUndefined h (CallMove oIndex nIndex) ds = move getItemId idOfUndefined ds oIndex nIndex"
| "ds_call truthy inherited getItemId idOfUndefined h CallReset ds = ds_reset ds"
| "ds_call truthy inherited getItemId idOfUndefined h CallClear ds = clear ds"

fun ds_calls ::
  "('a \<Rightarrow> bool) \<Rightarrow> (string \<Rightarrow> bool) \<Rightarrow> ('a \<Rightarrow> string) \<Rightarrow> string option \<Rightarrow> ('a \<Rightarrow> bool)
     \<Rightarrow> 'a call list \<Rightarrow> 'a DataSource \<Rightarrow> 'a DataSource" where
  "ds_calls truthy inherited getItemId idOfUndefined h [] ds = ds"
| "ds_calls truthy inherited getItemId idOfUndefined h (c # cs) ds =
     ds_calls truthy inherited getItemId idOfUndefined h cs
       (fst (snd (ds_call truthy inherited getItemId idOfUndefined h c ds)))"

text \<open>The rows that a call gives to the collection.\<close>

fun rowsOf :: "'a call \<Rightarrow> 'a list" where
  "rowsOf (CallAdd it) = [it]"
| "rowsOf (CallAddRange its) = its"
| "rowsOf c = []"

text \<open>
  The rows that the array holds, and what holds of a collection that was given truthy
  rows only: no two of the rows it holds have the same identifier, and each is truthy and
  stored under its identifier, which is not one that the accessor gives to \<open>undefined\<close>.
\<close>

fun rowsHeld :: "'a option list \<Rightarrow> 'a list" where
  "rowsHeld [] = []"
| "rowsHeld (None # vs) = rowsHeld vs"
| "rowsHeld (Some x # vs) = x # rowsHeld vs"

definition ds_consistent :: "('a \<Rightarrow> bool) \<Rightarrow> ('a \<Rightarrow> string) \<Rightarrow> string option \<Rightarrow> 'a DataSource \<Rightarrow> bool" where
  "ds_consistent truthy getItemId idOfUndefined ds =
     (distinct (map getItemId (rowsHeld (ds_items ds)))
      \<and> (\<forall>x \<in> set (rowsHeld (ds_items ds)).
            truthy x \<and> Some (getItemId x) \<noteq> idOfUndefined \<and> ds_itemById ds (getItemId x) = Some x))"

text \<open>The collection after the rows \<open>pre\<close> have been appended and registered, one by one.\<close>

definition addAll :: "('a \<Rightarrow> string) \<Rightarrow> ('a \<Rightarrow> bool) \<Rightarrow> 'a DataSource \<Rightarrow> 'a list \<Rightarrow> 'a DataSource" where
  "addAll getItemId hasSubscribeChange ds pre =
     \<lparr>ds_items = ds_items ds @ map Some pre,
      ds_itemById = ds_itemById ds ++ map_of (map (\<lambda>p. (getItemId p, p)) pre),
      ds_notifying = ds_notifying ds @ filter hasSubscribeChange pre\<rparr>"

text \<open>Rows that are strings, each its own identifier; a string is truthy unless empty.\<close>

definition nonEmpty :: "string \<Rightarrow> bool" where
  "nonEmpty s = (s \<noteq> [])"

definition ds0 :: "string DataSource" where
  "ds0 = ds_calls nonEmpty objectPrototypeMember (\<lambda>x. x) None (\<lambda>x. False) [CallAdd ''a''] newDataSource"

section \<open>The window view\<close>

text \<open>
  The window view keeps a size and an offset, both JavaScript numbers holding integers,
  and reads the upstream sequence (\<open>source.getAllItems()\<close>, here \<open>sourceItems\<close>) when
  it needs a row. \<open>itemAt\<close> is an array read: \<open>undefined\<close> out of range. The identifier
  accessor applied to \<open>undefined\<close> throws (\<open>TypeError\<close>).
\<close>

record WindowView =
  windowSize :: int
  offset :: int

definition itemAt :: "'a list \<Rightarrow> int \<Rightarrow> 'a option" where
  "itemAt xs i = (if 0 \<le> i \<and> i < int (length xs) then Some (xs ! nat i) else None)"

definition toWindowIndex :: "WindowView \<Rightarrow> int \<Rightarrow> int" where
  "toWindowIndex wv index = index - offset wv"

definition isValidWindowIndex :: "WindowView \<Rightarrow> int \<Rightarrow> bool" where
  "isValidWindowIndex wv windowIndex = (windowIndex \<ge> 0 \<and> windowIndex < windowSize wv)"

definition wv_remove ::
  "('a \<Rightarrow> string) \<Rightarrow> 'a list \<Rightarrow> WindowView \<Rightarrow> 'a option \<Rightarrow> string option \<Rightarrow> int
     \<Rightarrow> error option \<times> 'a CollectionChange list" where
  "wv_remove getItemId sourceItems wv it iid windowIndex =
     (if offset wv + windowSize wv \<le> int (length sourceItems) then
        (case itemAt sourceItems (offset wv + windowSize wv - 1) of
           None \<Rightarrow> (Some TypeError, [])
         | Some appendItem \<Rightarrow>
             (None, [change_replace it iid windowIndex
                       (Some appendItem) (Some (getItemId appendItem)) (windowSize wv - 1) False,
                     change_scroll]))
      else (None, [change_remove it iid windowIndex, change_scroll]))"

definition wv_insert ::
  "('a \<Rightarrow> string) \<Rightarrow> 'a list \<Rightarrow> WindowView \<Rightarrow> 'a option \<Rightarrow> string option \<Rightarrow> int \<Rightarrow> bool option
     \<Rightarrow> error option \<times> 'a CollectionChange list" where
  "wv_insert getItemId sourceItems wv it iid windowIndex isNew =
     (if offset wv + windowSize wv < int (length sourceItems) then
        (case itemAt sourceItems (offset wv + windowSize wv) of
           None \<Rightarrow> (Some TypeError, [])
         | Some removeItem \<Rightarrow>
             (None, [change_replace (Some removeItem) (Some (getItemId removeItem)) (windowSize wv - 1)
                       it iid windowIndex (isNew = Some True),
                     change_scroll]))
      else (None, [change_insert it iid windowIndex isNew, change_scroll]))"

text \<open>
  The handler of upstream changes returns the error thrown (if any), the view as the
  call leaves it and the changes raised. \<open>Replace\<close> has no case in the source's \<open>switch\<close>.
\<close>

definition wv_onSourceChanged ::
  "('a \<Rightarrow> string) \<Rightarrow> 'a list \<Rightarrow> WindowView \<Rightarrow> 'a CollectionChange
     \<Rightarrow> error option \<times> WindowView \<times> 'a CollectionChange list" where
  "wv_onSourceChanged getItemId sourceItems wv event =
     (case ctype event of
        Insert \<Rightarrow>
          (let windowIndex = toWindowIndex wv (newIndex event) in
           if isValidWindowIndex wv windowIndex then
             (let (err, evs) = wv_insert getItemId sourceItems wv (item event) (itemId event)
                                 windowIndex (isNewlyAdded event)
              in (err, wv, evs))
           else (None, wv, [change_scroll]))
      | Remove \<Rightarrow>
          (let windowIndex = toWindowIndex wv (oldIndex event) in
           if isValidWindowIndex wv windowIndex then
             (let (err, evs) = wv_remove getItemId sourceItems wv (item event) (itemId event) windowIndex
              in (err, wv, evs))
           else
             (let wv' = (if windowIndex < 0 then wv\<lparr>offset := offset wv - 1\<rparr> else wv)
              in (None, wv', [change_scroll])))
      | Update \<Rightarrow>
          (let index = toWindowIndex wv (newIndex event) in
           if isValidWindowIndex wv index then
             (None, wv, [change_update (item event) (itemId event) (newIndex event - offset wv)])
           else (None, wv, []))
      | Move \<Rightarrow>
          (let oldWIndex = toWindowIndex wv (oldIndex event);
               newWIndex = toWindowIndex wv (newIndex event);
               wasBefore = oldWIndex < 0;
               isBefore = newWIndex < 0;
               wasAfter = oldWIndex \<ge> windowSize wv;
               isAfter = newWIndex \<ge> windowSize wv;
               wasIn = (\<not> wasBefore \<and> \<not> wasAfter);
               isIn = (\<not> isBefore \<and> \<not> isAfter)
           in
           if (wasBefore \<and> isBefore) \<or> (wasAfter \<and> isAfter) then (None, wv, [])
           else if wasIn \<and> isIn then
             (None, wv, [change_move (item event) (itemId event) oldWIndex newWIndex])
           else
             (let (removeItem, insertItem, removeIndex, insertIndex) =
                (if wasBefore \<and> isAfter then
                   (itemAt sourceItems (offset wv - 1), itemAt sourceItems (offset wv + windowSize wv - 1),
                    0, windowSize wv - 1)
                 else if wasAfter \<and> isBefore then
                   (itemAt sourceItems (offset wv + windowSize wv), itemAt sourceItems (offset wv),
                    windowSize wv - 1, 0)
                 else if wasIn then
                   (if isBefore then
                      (itemAt sourceItems (newIndex event), itemAt sourceItems (offset wv), oldWIndex, 0)
                    else
                      (itemAt sourceItems (newIndex event), itemAt sourceItems (offset wv + windowSize wv - 1),
                       oldWIndex, windowSize wv - 1))
                 else
                   (if wasBefore then
                      (itemAt sourceItems (offset wv - 1), itemAt sourceItems (newIndex event), 0, newWIndex)
                    else
                      (itemAt sourceItems (offset wv + windowSize wv), itemAt sourceItems (newIndex event),
                       windowSize wv - 1, newWIndex)))
              in case (removeItem, insertItem) of
                   (Some r, Some i) \<Rightarrow>
                     (None, wv, [change_replace (Some r) (Some (getItemId r)) removeIndex
                                   (Some i) (Some (getItemId i)) insertIndex False])
                 | _ \<Rightarrow> (Some TypeError, wv, [])))
      | Reset \<Rightarrow> (None, wv, [event])
      | Scroll \<Rightarrow> (None, wv, [event])
      | Replace \<Rightarrow> (None, wv, []))"

text \<open>
  \<open>offset |= 0\<close> is the ToInt32 of the language: the argument, a finite number here, is
  truncated towards zero and wrapped into the signed 32-bit range.
\<close>

definition toInt32 :: "real \<Rightarrow> int" where
  "toInt32 x =
     (let t = (if x < 0 then \<lceil>x\<rceil> else \<lfloor>x\<rfloor>);
          m = t mod 2 ^ 32
      in if m \<ge> 2 ^ 31 then m - 2 ^ 32 else m)"

text \<open>
  The two loops of \<open>setWindowOffset\<close>. Scrolling down, \<open>i\<close> counts up from \<open>0\<close> to
  \<open>diff - 1\<close>; scrolling up, it counts down from \<open>diff - 1\<close> to \<open>0\<close> (the loop for
  \<open>Suc i\<close> handles \<open>i\<close> first), with the new offset already stored.
\<close>

function scrollDown_loop ::
  "('a \<Rightarrow> string) \<Rightarrow> 'a list \<Rightarrow> int \<Rightarrow> int \<Rightarrow> int \<Rightarrow> int \<Rightarrow> 'a CollectionChange list" where
  "scrollDown_loop getItemId items wsize oldOffset diff i =
     (if i < diff then
        (let removeIndex = oldOffset + i;
             insertIndex = oldOffset + wsize + i;
             validRemove = (removeIndex \<ge> 0 \<and> removeIndex < int (length items));
             validInsert = (insertIndex \<ge> 0 \<and> insertIndex < int (length items))
         in (if validRemove then
               (let removeItem = items ! nat removeIndex in
                if validInsert then
                  [change_replace (Some removeItem) (Some (getItemId removeItem)) 0
                     (Some (items ! nat insertIndex)) (Some (getItemId (items ! nat insertIndex)))
                     (wsize - 1) False]
                else [change_remove (Some removeItem) (Some (getItemId removeItem)) 0])
             else [])
            @ scrollDown_loop getItemId items wsize oldOffset diff (i + 1))
      else [])"
  by pat_completeness auto
termination
  by (relation "measure (\<lambda>(g, items, wsize, oldOffset, diff, i). nat (diff - i))") auto

fun scrollUp_loop ::
  "('a \<Rightarrow> string) \<Rightarrow> 'a list \<Rightarrow> int \<Rightarrow> int \<Rightarrow> nat \<Rightarrow> 'a CollectionChange list" where
  "scrollUp_loop getItemId items wsize newOffset 0 = []"
| "scrollUp_loop getItemId items wsize newOffset (Suc i) =
     (let removeIndex = newOffset + wsize + int i;
          insertIndex = newOffset + int i;
          validRemove = (removeIndex \<ge> 0 \<and> removeIndex < int (length items));
          validInsert = (insertIndex \<ge> 0 \<and> insertIndex < int (length items))
      in (if validInsert then
            (let insertItem = items ! nat insertIndex in
             if validRemove then
               [change_replace (Some (items ! nat removeIndex)) (Some (getItemId (items ! nat removeIndex)))
                  (wsize - 1) (Some insertItem) (Some (getItemId insertItem)) 0 False]
             else [change_insert (Some insertItem) (Some (getItemId insertItem)) 0 (Some False)])
          else [])
         @ scrollUp_loop getItemId items wsize newOffset i)"

definition setWindowOffset ::
  "('a \<Rightarrow> string) \<Rightarrow> 'a list \<Rightarrow> WindowView \<Rightarrow> real
     \<Rightarrow> error option \<times> WindowView \<times> 'a CollectionChange list" where
  "setWindowOffset getItemId items wv offset0 =
     (let offs = toInt32 offset0 in
      if offset wv = offs then (None, wv, [])
      else if offs < 0 then (Some NegativeOffset, wv, [])
      else
        (let oldOffset = offset wv;
             wv' = wv\<lparr>offset := offs\<rparr>;
             diff = offs - oldOffset
         in if real_of_int \<bar>diff\<bar> \<ge> real_of_int (windowSize wv') / 2 then
              (None, wv', [change_reset, change_scroll])
            else if diff > 0 then
              (None, wv', scrollDown_loop getItemId items (windowSize wv') oldOffset diff 0 @ [change_scroll])
            else
              (None, wv', scrollUp_loop getItemId items (windowSize wv') (offset wv') (nat (- diff))
                          @ [change_scroll])))"

text \<open>
  What the specification expects of a small shift, row by row. Scrolling down, the
  upstream row \<open>r\<close> leaves at the top and the row \<open>r + size\<close> enters at the bottom;
  scrolling up, the row \<open>r\<close> enters at the top and the row \<open>r + size\<close> leaves at the
  bottom. Where both rows exist the change is a \<open>Replace\<close>; where the upstream has no
  row for the far end it is a plain \<open>Remove\<close> (down) or \<open>Insert\<close> (up); where the upstream
  has neither, no row is shifted and there is no change.
\<close>

definition rowDown :: "('a \<Rightarrow> string) \<Rightarrow> 'a list \<Rightarrow> int \<Rightarrow> nat \<Rightarrow> 'a CollectionChange list" where
  "rowDown getItemId items wsize r =
     (if r < length items then
        (if int r + wsize < int (length items) then
           [change_replace (Some (items ! r)) (Some (getItemId (items ! r))) 0
              (Some (items ! nat (int r + wsize))) (Some (getItemId (items ! nat (int r + wsize))))
              (wsize - 1) False]
         else [change_remove (Some (items ! r)) (Some (getItemId (items ! r))) 0])
      else [])"

definition rowUp :: "('a \<Rightarrow> string) \<Rightarrow> 'a list \<Rightarrow> int \<Rightarrow> nat \<Rightarrow> 'a CollectionChange list" where
  "rowUp getItemId items wsize r =
     (if r < length items then
        (if int r + wsize < int (length items) then
           [change_replace (Some (items ! nat (int r + wsize))) (Some (getItemId (items ! nat (int r + wsize))))
              (wsize - 1) (Some (items ! r)) (Some (getItemId (items ! r))) 0 False]
         else [change_insert (Some (items ! r)) (Some (getItemId (items ! r))) 0 (Some False)])
      else [])"

definition shiftedRows ::
  "('a \<Rightarrow> string) \<Rightarrow> 'a list \<Rightarrow> int \<Rightarrow> nat \<Rightarrow> nat \<Rightarrow> 'a CollectionChange list" where
  "shiftedRows getItemId items wsize oldOffset newOffset =
     (if oldOffset < newOffset
      then concat (map (rowDown getItemId items wsize) [oldOffset ..< newOffset])
      else concat (map (rowUp getItemId items wsize) (rev [newOffset ..< oldOffset])))"

text \<open>Windows and upstream sequences used as examples.\<close>

definition wv0 :: WindowView where "wv0 = \<lparr>windowSize = 2, offset = 0\<rparr>"
definition wv5 :: WindowView where "wv5 = \<lparr>windowSize = 5, offset = 1\<rparr>"
definition abcdefg :: "string list" where "abcdefg = [''a'', ''b'', ''c'', ''d'', ''e'', ''f'', ''g'']"

definition bcd :: "string list" where "bcd = [''b'', ''c'', ''d'']"

definition wvNeg :: WindowView where "wvNeg = \<lparr>windowSize = 4, offset = -2\<rparr>"

section \<open>The filter view\<close>

text \<open>
  \<open>Array.prototype.splice(index, 1)\<close>: a negative index counts from the end (so the
  \<open>-1\<close> of a failed \<open>indexOf\<close> removes the last element), and an index past the end
  removes nothing.
\<close>

definition spliceAt :: "int \<Rightarrow> 'a list \<Rightarrow> 'a list" where
  "spliceAt index xs =
     (let start = (if index < 0 then max (int (length xs) + index) 0 else min index (int (length xs)))
      in spliceOut (nat start) xs)"

text \<open>
  A row object is mutable: \<open>rows\<close> gives what each row holds at the time of the call, a
  predicate reads that content, and the identifier of a row is stable (a function of the
  reference). The view keeps the visible rows, the cache of pass flags by identifier (a
  JavaScript object used as a dictionary) and the predicate, if any.
\<close>

record ('a, 'v) FilterView =
  fv_items :: "'a list"
  fv_itemFilterState :: "string \<rightharpoonup> bool"
  fv_predicate :: "('v \<Rightarrow> bool) option"

text \<open>\<open>!predicate || predicate(item)\<close>\<close>

definition passes :: "('v \<Rightarrow> bool) option \<Rightarrow> ('a \<Rightarrow> 'v) \<Rightarrow> 'a \<Rightarrow> bool" where
  "passes predicate rows it = (case predicate of None \<Rightarrow> True | Some p \<Rightarrow> p (rows it))"

text \<open>The property name under which \<open>event.itemId\<close> is looked up.\<close>

definition keyOf :: "string option \<Rightarrow> string" where
  "keyOf iid = (case iid of Some s \<Rightarrow> s | None \<Rightarrow> ''null'')"

definition fv_append ::
  "('a, 'v) FilterView \<Rightarrow> 'a \<Rightarrow> string option \<Rightarrow> bool option
     \<Rightarrow> ('a, 'v) FilterView \<times> 'a CollectionChange list" where
  "fv_append fv it iid isNew =
     (let fv1 = fv\<lparr>fv_items := fv_items fv @ [it]\<rparr>
      in (fv1, [change_insert (Some it) iid (int (length (fv_items fv1)) - 1) isNew]))"

definition fv_remove ::
  "('a, 'v) FilterView \<Rightarrow> 'a \<Rightarrow> string option \<Rightarrow> ('a, 'v) FilterView \<times> 'a CollectionChange list" where
  "fv_remove fv it iid =
     (let index = indexOf (fv_items fv) it;
          fv1 = fv\<lparr>fv_items := spliceAt index (fv_items fv)\<rparr>
      in (fv1, [change_remove (Some it) iid index]))"

fun fv_reset_loop ::
  "('v \<Rightarrow> bool) \<Rightarrow> ('a \<Rightarrow> 'v) \<Rightarrow> ('a \<Rightarrow> string) \<Rightarrow> 'a list \<Rightarrow> ('a, 'v) FilterView \<Rightarrow> ('a, 'v) FilterView" where
  "fv_reset_loop p rows getItemId [] fv = fv"
| "fv_reset_loop p rows getItemId (it # rest) fv =
     (let matches = p (rows it);
          fv1 = fv\<lparr>fv_itemFilterState := (fv_itemFilterState fv)(getItemId it \<mapsto> matches)\<rparr>;
          fv2 = (if matches then fv1\<lparr>fv_items := fv_items fv1 @ [it]\<rparr> else fv1)
      in fv_reset_loop p rows getItemId rest fv2)"

fun fv_reset_all_loop :: "('a \<Rightarrow> string) \<Rightarrow> 'a list \<Rightarrow> ('a, 'v) FilterView \<Rightarrow> ('a, 'v) FilterView" where
  "fv_reset_all_loop getItemId [] fv = fv"
| "fv_reset_all_loop getItemId (it # rest) fv =
     fv_reset_all_loop getItemId rest
       (fv\<lparr>fv_itemFilterState := (fv_itemFilterState fv)(getItemId it \<mapsto> True)\<rparr>)"

text \<open>
  The handler of upstream changes returns the view as the call leaves it and the changes
  raised. An \<open>Insert\<close>, \<open>Remove\<close> or \<open>Update\<close> record carries its row (every factory call of
  the source gives it one); for such a record without a row the view is left as it is.
  \<open>console.assert\<close> and \<open>console.error\<close> only log. \<open>Replace\<close> has no case in the \<open>switch\<close>.
\<close>

definition fv_onSourceChanged ::
  "('a \<Rightarrow> 'v) \<Rightarrow> ('a \<Rightarrow> string) \<Rightarrow> 'a list \<Rightarrow> ('a, 'v) FilterView \<Rightarrow> 'a CollectionChange
     \<Rightarrow> ('a, 'v) FilterView \<times> 'a CollectionChange list" where
  "fv_onSourceChanged rows getItemId sourceItems fv event =
     (case ctype event of
        Insert \<Rightarrow>
          (case item event of
             None \<Rightarrow> (fv, [])
           | Some it \<Rightarrow>
               (let passesFilter = passes (fv_predicate fv) rows it;
                    fv1 = fv\<lparr>fv_itemFilterState :=
                                (fv_itemFilterState fv)(keyOf (itemId event) \<mapsto> passesFilter)\<rparr>
                in if passesFilter then fv_append fv1 it (itemId event) (isNewlyAdded event)
                   else (fv1, [])))
      | Remove \<Rightarrow>
          (case item event of
             None \<Rightarrow> (fv, [])
           | Some it \<Rightarrow>
               (let passesFilter = passes (fv_predicate fv) rows it
                in if \<not> passesFilter then (fv, [])
                   else
                     (let fv1 = fv\<lparr>fv_itemFilterState :=
                                      (fv_itemFilterState fv)(keyOf (itemId event) := None)\<rparr>
                      in fv_remove fv1 it (itemId event))))
      | Update \<Rightarrow>
          (case item event of
             None \<Rightarrow> (fv, [])
           | Some it \<Rightarrow>
               (let passesFilter = passes (fv_predicate fv) rows it;
                    priorState = fv_itemFilterState fv (keyOf (itemId event))
                in if priorState = Some passesFilter then
                     (if passesFilter then
                        (fv, [change_update (Some it) (itemId event) (indexOf (fv_items fv) it)])
                      else (fv, []))
                   else
                     (let fv1 = fv\<lparr>fv_itemFilterState :=
                                      (fv_itemFilterState fv)(keyOf (itemId event) \<mapsto> passesFilter)\<rparr>
                      in if priorState \<noteq> Some True then fv_append fv1 it (itemId event) (Some False)
                         else fv_remove fv1 it (itemId event))))
      | Move \<Rightarrow> (fv, [])
      | Reset \<Rightarrow>
          (let fv0 = fv\<lparr>fv_items := [], fv_itemFilterState := Map.empty\<rparr>;
               fv1 = (case fv_predicate fv of
                        Some p \<Rightarrow> fv_reset_loop p rows getItemId sourceItems fv0
                      | None \<Rightarrow> fv_reset_all_loop getItemId sourceItems
                                  (fv0\<lparr>fv_items := fv_items fv0 @ sourceItems\<rparr>))
           in (fv1, [event]))
      | Scroll \<Rightarrow> (fv, [event])
      | Replace \<Rightarrow> (fv, []))"

text \<open>
  The loop of \<open>setPredicate\<close> carries the cache, the rows that pass so far and
  \<open>hasChange\<close>.
\<close>

fun setPredicate_loop ::
  "('v \<Rightarrow> bool) option \<Rightarrow> ('a \<Rightarrow> 'v) \<Rightarrow> ('a \<Rightarrow> string) \<Rightarrow> 'a list
     \<Rightarrow> (string \<rightharpoonup> bool) \<times> 'a list \<times> bool \<Rightarrow> (string \<rightharpoonup> bool) \<times> 'a list \<times> bool" where
  "setPredicate_loop predicate rows getItemId [] st = st"
| "setPredicate_loop predicate rows getItemId (it # rest) (cache, filteredItems, hasChange) =
     (let iid = getItemId it;
          passesFilter = passes predicate rows it;
          priorState = cache iid;
          (cache1, hasChange1) =
            (if priorState \<noteq> Some passesFilter then (cache(iid \<mapsto> passesFilter), True)
             else (cache, hasChange));
          filteredItems1 = (if passesFilter then filteredItems @ [it] else filteredItems)
      in setPredicate_loop predicate rows getItemId rest (cache1, filteredItems1, hasChange1))"

definition setPredicate ::
  "('a \<Rightarrow> 'v) \<Rightarrow> ('a \<Rightarrow> string) \<Rightarrow> 'a list \<Rightarrow> ('a, 'v) FilterView \<Rightarrow> ('v \<Rightarrow> bool) option
     \<Rightarrow> ('a, 'v) FilterView \<times> 'a CollectionChange list" where
  "setPredicate rows getItemId sourceItems fv predicate =
     (let fv1 = fv\<lparr>fv_predicate := predicate\<rparr>;
          (cache, filteredItems, hasChange) =
             setPredicate_loop predicate rows getItemId sourceItems (fv_itemFilterState fv1, [], False);
          fv2 = fv1\<lparr>fv_itemFilterState := cache\<rparr>
      in if hasChange then (fv2\<lparr>fv_items := filteredItems\<rparr>, [change_reset, change_scroll])
         else (fv2, []))"

text \<open>The constructor: an empty view, then \<open>setPredicate\<close> (the changes it raises have no listener yet).\<close>

definition newFilterView ::
  "('a \<Rightarrow> 'v) \<Rightarrow> ('a \<Rightarrow> string) \<Rightarrow> 'a list \<Rightarrow> ('v \<Rightarrow> bool) option \<Rightarrow> ('a, 'v) FilterView" where
  "newFilterView rows getItemId sourceItems predicate =
     fst (setPredicate rows getItemId sourceItems
            \<lparr>fv_items = [], fv_itemFilterState = Map.empty, fv_predicate = None\<rparr> predicate)"

text \<open>
  The cache is a plain JavaScript object: \<open>cache[key] = flag\<close> stores the flag under any
  key but \<open>__proto__\<close>, where the assignment of a boolean stores nothing. No row of a root
  collection has that identifier (\<open>add\<close> finds the inherited member and rejects the row).
\<close>

definition storable :: "string \<Rightarrow> bool" where
  "storable key = (key \<noteq> ''__proto__'')"

definition upstream_ok :: "('a \<Rightarrow> string) \<Rightarrow> 'a list \<Rightarrow> bool" where
  "upstream_ok getItemId source =
     (distinct (map getItemId source) \<and> (\<forall>x \<in> set source. storable (getItemId x)))"

text \<open>
  An upstream source and the filter view over it. What the upstream does is one of: it
  inserts a row that it does not hold, under an identifier that it does not hold, at a
  position of its sequence; it removes the row that \<open>splice(index, 1)\<close> finds; a row, one
  that it holds or any other, comes to hold a new content and the upstream raises an
  \<open>Update\<close> for it, with the position at which it holds the row (\<open>-1\<close> if it does not, as
  the root collection does for a row that was removed); it replaces its contents (by rows
  with distinct identifiers); each with the change it raises, which the view handles at
  once. Or the predicate of the view is set. What a row holds changes in no other way. A
  step that the upstream cannot take is \<open>None\<close>.
\<close>

datatype ('a, 'v) action =
    DoInsert 'a 'v nat bool
  | DoRemove int
  | DoUpdate 'a 'v
  | DoReset "'a list" "'a \<Rightarrow> 'v"
  | DoScroll
  | DoSetPredicate "('v \<Rightarrow> bool) option"

record ('a, 'v) pipeline =
  p_rows :: "'a \<Rightarrow> 'v"
  p_source :: "'a list"
  p_view :: "('a, 'v) FilterView"

fun step :: "('a \<Rightarrow> string) \<Rightarrow> ('a, 'v) action \<Rightarrow> ('a, 'v) pipeline \<Rightarrow> ('a, 'v) pipeline option" where
  "step getItemId (DoInsert it v index isNew) p =
     (if getItemId it \<in> getItemId ` set (p_source p) \<or> \<not> storable (getItemId it)
         \<or> index > length (p_source p) then None
      else
        (let rows = (p_rows p)(it := v);
             source = spliceIn index it (p_source p);
             event = change_insert (Some it) (Some (getItemId it)) (int index) (Some isNew)
         in Some \<lparr>p_rows = rows, p_source = source,
                  p_view = fst (fv_onSourceChanged rows getItemId source (p_view p) event)\<rparr>))"
| "step getItemId (DoRemove index) p =
     (let start = spliceStart index (length (p_source p))
      in if start \<ge> length (p_source p) then None
         else
           (let it = p_source p ! start;
                source = spliceOut start (p_source p);
                event = change_remove (Some it) (Some (getItemId it)) index
            in Some \<lparr>p_rows = p_rows p, p_source = source,
                     p_view = fst (fv_onSourceChanged (p_rows p) getItemId source (p_view p) event)\<rparr>))"
| "step getItemId (DoUpdate it v) p =
     (let rows = (p_rows p)(it := v);
          event = change_update (Some it) (Some (getItemId it)) (indexOf (p_source p) it)
      in Some \<lparr>p_rows = rows, p_source = p_source p,
               p_view = fst (fv_onSourceChanged rows getItemId (p_source p) (p_view p) event)\<rparr>)"
| "step getItemId (DoReset source rows) p =
     (if \<not> upstream_ok getItemId source then None
      else Some \<lparr>p_rows = rows, p_source = source,
                 p_view = fst (fv_onSourceChanged rows getItemId source (p_view p) change_reset)\<rparr>)"
| "step getItemId DoScroll p =
     Some (p\<lparr>p_view := fst (fv_onSourceChanged (p_rows p) getItemId (p_source p) (p_view p) change_scroll)\<rparr>)"
| "step getItemId (DoSetPredicate predicate) p =
     Some (p\<lparr>p_view := fst (setPredicate (p_rows p) getItemId (p_source p) (p_view p) predicate)\<rparr>)"

fun run :: "('a \<Rightarrow> string) \<Rightarrow> ('a, 'v) action list \<Rightarrow> ('a, 'v) pipeline \<Rightarrow> ('a, 'v) pipeline option" where
  "run getItemId [] p = Some p"
| "run getItemId (a # as) p = (case step getItemId a p of None \<Rightarrow> None | Some p' \<Rightarrow> run getItemId as p')"



definition newPipeline ::
  "('a \<Rightarrow> string) \<Rightarrow> ('a \<Rightarrow> 'v) \<Rightarrow> 'a list \<Rightarrow> ('v \<Rightarrow> bool) option \<Rightarrow> ('a, 'v) pipeline" where
  "newPipeline getItemId rows source predicate =
     \<lparr>p_rows = rows, p_source = source, p_view = newFilterView rows getItemId source predicate\<rparr>"







section \<open>Binary-search insertion\<close>

text \<open>
  \<open>findInsertionIndex\<close>: the \<open>while\<close> loop and the statements after it, with \<open>minIndex\<close>
  and \<open>maxIndex\<close> as arguments. A comparator returns a number, here an integer.
  \<open>(minIndex + maxIndex) / 2 | 0\<close> is the integer quotient. The indices are natural
  numbers: \<open>maxIndex = index - 1\<close> is only reached with \<open>index > 0\<close>.
\<close>

function findInsertionIndex_loop ::
  "'a list \<Rightarrow> 'a \<Rightarrow> ('a \<Rightarrow> 'a \<Rightarrow> int) \<Rightarrow> nat \<Rightarrow> nat \<Rightarrow> nat" where
  "findInsertionIndex_loop items target comparator minIndex maxIndex =
     (if minIndex < maxIndex then
        (let index = (minIndex + maxIndex) div 2;
             it = items ! index
         in if it = target then
              (if index = 0 then minIndex
               else if index = length items - 1 then length items - 1
               else
                 (let orderedBelow = (comparator (items ! (index - 1)) target < 0);
                      orderedAbove = (comparator target (items ! (index + 1)) < 0)
                  in if orderedBelow = orderedAbove then index
                     else if orderedBelow then
                       findInsertionIndex_loop items target comparator (index + 1) maxIndex
                     else
                       findInsertionIndex_loop items target comparator minIndex (index - 1)))
            else
              (let comp = comparator target it
               in if comp = 0 then index
                  else if comp > 0 then
                    findInsertionIndex_loop items target comparator (index + 1) maxIndex
                  else
                    findInsertionIndex_loop items target comparator minIndex index))
      else if minIndex = length items - 1 \<and> comparator (items ! (length items - 1)) target < 0
        then length items
      else minIndex)"
  by pat_completeness auto
termination
proof (relation "measure (\<lambda>(items, target, comparator, minIndex, maxIndex). maxIndex - minIndex)")
  show "wf (measure (\<lambda>(items :: 'a list, target :: 'a, comparator :: 'a \<Rightarrow> 'a \<Rightarrow> int, minIndex, maxIndex). maxIndex - minIndex))"
    by simp
next
  fix minIndex maxIndex x :: nat
  fix items :: "'a list" and target :: 'a and comparator :: "'a \<Rightarrow> 'a \<Rightarrow> int"
  assume "minIndex < maxIndex" "x = (minIndex + maxIndex) div 2"
  then have "maxIndex - (x + 1) < maxIndex - minIndex" by linarith
  then show "((items, target, comparator, x + 1, maxIndex), items, target, comparator, minIndex, maxIndex)
      \<in> measure (\<lambda>(items, target, comparator, minIndex, maxIndex). maxIndex - minIndex)"
    by simp
next
  fix minIndex maxIndex x :: nat
  fix items :: "'a list" and target :: 'a and comparator :: "'a \<Rightarrow> 'a \<Rightarrow> int"
  assume "minIndex < maxIndex" "x = (minIndex + maxIndex) div 2"
  then have "(x - 1) - minIndex < maxIndex - minIndex" by linarith
  then show "((items, target, comparator, minIndex, x - 1), items, target, comparator, minIndex, maxIndex)
      \<in> measure (\<lambda>(items, target, comparator, minIndex, maxIndex). maxIndex - minIndex)"
    by simp
next
  fix minIndex maxIndex x :: nat
  fix items :: "'a list" and target :: 'a and comparator :: "'a \<Rightarrow> 'a \<Rightarrow> int"
  assume "minIndex < maxIndex" "x = (minIndex + maxIndex) div 2"
  then have "maxIndex - (x + 1) < maxIndex - minIndex" by linarith
  then show "((items, target, comparator, x + 1, maxIndex), items, target, comparator, minIndex, maxIndex)
      \<in> measure (\<lambda>(items, target, comparator, minIndex, maxIndex). maxIndex - minIndex)"
    by simp
next
  fix minIndex maxIndex x :: nat
  fix items :: "'a list" and target :: 'a and comparator :: "'a \<Rightarrow> 'a \<Rightarrow> int"
  assume "minIndex < maxIndex" "x = (minIndex + maxIndex) div 2"
  then have "x - minIndex < maxIndex - minIndex" by linarith
  then show "((items, target, comparator, minIndex, x), items, target, comparator, minIndex, maxIndex)
      \<in> measure (\<lambda>(items, target, comparator, minIndex, maxIndex). maxIndex - minIndex)"
    by simp
qed

declare findInsertionIndex_loop.simps [simp del]

definition findInsertionIndex :: "'a list \<Rightarrow> 'a \<Rightarrow> ('a \<Rightarrow> 'a \<Rightarrow> int) \<Rightarrow> nat" where
  "findInsertionIndex items target comparator =
     (if length items = 0 then 0
      else findInsertionIndex_loop items target comparator 0 (length items - 1))"

text \<open>
  The contract of a comparator: negative when the first argument sorts before the
  second, positive when it sorts after it, consistently in both directions, and
  transitive. A sequence is sorted according to it when no element sorts after a later
  one.
\<close>

definition is_comparator :: "('a \<Rightarrow> 'a \<Rightarrow> int) \<Rightarrow> bool" where
  "is_comparator c =
     ((\<forall>x y. (c x y < 0) = (c y x > 0))
      \<and> (\<forall>x y z. c x y \<le> 0 \<and> c y z \<le> 0 \<longrightarrow> c x z \<le> 0))"

definition sorted_by :: "('a \<Rightarrow> 'a \<Rightarrow> int) \<Rightarrow> 'a list \<Rightarrow> bool" where
  "sorted_by c xs = sorted_wrt (\<lambda>x y. c x y \<le> 0) xs"

text \<open>
  An index \<open>r\<close> is an insertion point of \<open>t\<close> in \<open>items\<close> when nothing before it sorts
  after \<open>t\<close> and nothing from it on sorts before \<open>t\<close>; where \<open>t\<close> itself occurs before
  \<open>r\<close>, the element at \<open>r\<close> moves down over the index when \<open>t\<close> is taken out, and must
  not sort after \<open>t\<close> either.
\<close>

definition insertion_point :: "('a \<Rightarrow> 'a \<Rightarrow> int) \<Rightarrow> 'a list \<Rightarrow> 'a \<Rightarrow> nat \<Rightarrow> bool" where
  "insertion_point c items t r =
     (r \<le> length items
      \<and> (\<forall>j < r. c (items ! j) t \<le> 0)
      \<and> (\<forall>j. r \<le> j \<and> j < length items \<longrightarrow> c t (items ! j) \<le> 0)
      \<and> (r < length items \<and> t \<in> set (take r items) \<longrightarrow> c (items ! r) t \<le> 0))"

section \<open>The sort view\<close>

datatype SortDirection = Ascending | Descending

text \<open>
  \<open>compare\<close> on sort values: \<open>undefined\<close> (\<open>None\<close>) sorts last in both directions. The
  values proper are of a linearly ordered type.
\<close>

definition compare :: "'k::linorder option \<Rightarrow> 'k option \<Rightarrow> SortDirection \<Rightarrow> int" where
  "compare a b sortDir =
     (if a = b then 0
      else case a of
             None \<Rightarrow> 1
           | Some x \<Rightarrow>
               (case b of
                  None \<Rightarrow> -1
                | Some y \<Rightarrow>
                    (if x < y then (if sortDir = Ascending then -1 else 1)
                     else (if sortDir = Ascending then 1 else -1))))"

text \<open>
  A column is an object: \<open>col_ref\<close> is its reference, compared by \<open>===\<close>. Its sort value
  reads what the row holds.
\<close>

record ('v, 'k) IColumn =
  col_ref :: nat
  getSortValue :: "'v \<Rightarrow> 'k option"
  getDefaultSortDirection :: SortDirection

record ('a, 'v, 'k) SortView =
  sv_items :: "'a list"
  sv_sortColumn :: "('v, 'k) IColumn option"
  sv_sortDirection :: SortDirection

text \<open>The comparator that the view passes to \<open>sort\<close> and to \<open>findInsertionIndex\<close>.\<close>

definition sv_comparator ::
  "('a \<Rightarrow> 'v) \<Rightarrow> ('v, 'k::linorder) IColumn \<Rightarrow> SortDirection \<Rightarrow> 'a \<Rightarrow> 'a \<Rightarrow> int" where
  "sv_comparator rows column sortDir a b =
     compare (getSortValue column (rows a)) (getSortValue column (rows b)) sortDir"

text \<open>
  \<open>Array.prototype.sort\<close> with a comparator, as a stable sort (insertion sort): an
  element goes before the first element that it does not sort after.
\<close>

fun insertSorted :: "('a \<Rightarrow> 'a \<Rightarrow> int) \<Rightarrow> 'a \<Rightarrow> 'a list \<Rightarrow> 'a list" where
  "insertSorted c x [] = [x]"
| "insertSorted c x (y # ys) = (if c x y \<le> 0 then x # y # ys else y # insertSorted c x ys)"

definition sortWith :: "('a \<Rightarrow> 'a \<Rightarrow> int) \<Rightarrow> 'a list \<Rightarrow> 'a list" where
  "sortWith c xs = foldr (insertSorted c) xs []"

definition sv_reset ::
  "('a \<Rightarrow> 'v) \<Rightarrow> ('a, 'v, 'k::linorder) SortView \<Rightarrow> ('a, 'v, 'k) SortView \<times> 'a CollectionChange list" where
  "sv_reset rows sv =
     (let sv1 = (case sv_sortColumn sv of
                   Some column \<Rightarrow>
                     sv\<lparr>sv_items := sortWith (sv_comparator rows column (sv_sortDirection sv)) (sv_items sv)\<rparr>
                 | None \<Rightarrow> sv)
      in (sv1, [change_reset]))"

definition setSortColumn ::
  "('a \<Rightarrow> 'v) \<Rightarrow> ('a, 'v, 'k::linorder) SortView \<Rightarrow> ('v, 'k) IColumn option
     \<Rightarrow> ('a, 'v, 'k) SortView \<times> 'a CollectionChange list" where
  "setSortColumn rows sv column =
     (case column of
        None \<Rightarrow> (sv\<lparr>sv_sortColumn := None, sv_sortDirection := Ascending\<rparr>, [])
      | Some col \<Rightarrow>
          (let sameColumn = (case sv_sortColumn sv of
                               Some current \<Rightarrow> col_ref current = col_ref col
                             | None \<Rightarrow> False);
               sv1 = (if sameColumn then
                        sv\<lparr>sv_sortDirection :=
                             (if sv_sortDirection sv = Ascending then Descending else Ascending)\<rparr>
                      else sv\<lparr>sv_sortDirection := getDefaultSortDirection col\<rparr>);
               sv2 = sv1\<lparr>sv_sortColumn := Some col\<rparr>
           in sv_reset rows sv2))"

text \<open>
  The handler of upstream changes. As for the filter view, an \<open>Insert\<close>, \<open>Remove\<close> or
  \<open>Update\<close> record carries its row, and the view is left as it is for one that does not.
  In the \<open>Update\<close> case \<open>adjustedNewIndex\<close> is not negative where the row is moved.
\<close>

definition sv_onSourceChanged ::
  "('a \<Rightarrow> 'v) \<Rightarrow> 'a list \<Rightarrow> ('a, 'v, 'k::linorder) SortView \<Rightarrow> 'a CollectionChange
     \<Rightarrow> ('a, 'v, 'k) SortView \<times> 'a CollectionChange list" where
  "sv_onSourceChanged rows sourceItems sv event =
     (case ctype event of
        Insert \<Rightarrow>
          (case item event of
             None \<Rightarrow> (sv, [])
           | Some it \<Rightarrow>
               (let insertIndex =
                      (case sv_sortColumn sv of
                         Some column \<Rightarrow>
                           findInsertionIndex (sv_items sv) it
                             (sv_comparator rows column (sv_sortDirection sv))
                       | None \<Rightarrow> length (sv_items sv))
                in (sv\<lparr>sv_items := spliceIn insertIndex it (sv_items sv)\<rparr>,
                    [change_insert (Some it) (itemId event) (int insertIndex) (isNewlyAdded event)])))
      | Remove \<Rightarrow>
          (case item event of
             None \<Rightarrow> (sv, [])
           | Some it \<Rightarrow>
               (let index = indexOf (sv_items sv) it
                in (sv\<lparr>sv_items := spliceAt index (sv_items sv)\<rparr>,
                    [change_remove (Some it) (itemId event) index])))
      | Update \<Rightarrow>
          (case item event of
             None \<Rightarrow> (sv, [])
           | Some it \<Rightarrow>
               (let oldIndex = indexOf (sv_items sv) it;
                    newIndex =
                      (case sv_sortColumn sv of
                         Some column \<Rightarrow>
                           int (findInsertionIndex (sv_items sv) it
                                  (sv_comparator rows column (sv_sortDirection sv)))
                       | None \<Rightarrow> oldIndex);
                    adjustedNewIndex = (if oldIndex < newIndex then newIndex - 1 else newIndex)
                in if oldIndex = adjustedNewIndex then
                     (sv, [change_update (Some it) (itemId event) oldIndex])
                   else
                     (sv\<lparr>sv_items := spliceIn (nat adjustedNewIndex) it (spliceAt oldIndex (sv_items sv))\<rparr>,
                      [change_move (Some it) (itemId event) oldIndex adjustedNewIndex])))
      | Move \<Rightarrow> (sv, [])
      | Reset \<Rightarrow> sv_reset rows (sv\<lparr>sv_items := [] @ sourceItems\<rparr>)
      | Scroll \<Rightarrow> (sv, [event])
      | Replace \<Rightarrow> (sv, []))"

text \<open>
  The direction that the specification gives to a selected column: the opposite of the
  current one when the column is the active one, the default of the column otherwise.
\<close>

definition selectedDirection :: "('a, 'v, 'k) SortView \<Rightarrow> ('v, 'k) IColumn \<Rightarrow> SortDirection" where
  "selectedDirection sv col =
     (if (\<exists>current. sv_sortColumn sv = Some current \<and> col_ref current = col_ref col)
      then (if sv_sortDirection sv = Ascending then Descending else Ascending)
      else getDefaultSortDirection col)"

text \<open>Rows, a column and views used as examples.\<close>

definition byKey :: "string \<times> nat \<Rightarrow> string \<times> nat \<Rightarrow> int" where
  "byKey a b = compare (Some (snd a)) (Some (snd b)) Ascending"

definition abc123 :: "(string \<times> nat) list" where
  "abc123 = [(''a'', 1), (''b'', 2), (''c'', 3)]"

definition rows123 :: "string \<Rightarrow> int" where
  "rows123 = (\<lambda>_. 0)(''a'' := 1, ''b'' := 2, ''c'' := 3)"

definition rows92 :: "string \<Rightarrow> int" where
  "rows92 = (\<lambda>_. 0)(''a'' := 9, ''b'' := 2)"

definition rows112 :: "string \<Rightarrow> int" where
  "rows112 = (\<lambda>_. 0)(''a'' := 1, ''b'' := 1, ''c'' := 2)"

definition valueColumn :: "(int, int) IColumn" where
  "valueColumn = \<lparr>col_ref = 1, getSortValue = Some, getDefaultSortDirection = Descending\<rparr>"

definition svUnsorted :: "(string, int, int) SortView" where
  "svUnsorted = \<lparr>sv_items = [''b'', ''c'', ''a''], sv_sortColumn = None, sv_sortDirection = Ascending\<rparr>"

definition svByValue :: "(string, int, int) SortView" where
  "svByValue = \<lparr>sv_items = [''a'', ''b'', ''c''], sv_sortColumn = Some valueColumn,
                sv_sortDirection = Ascending\<rparr>"

definition svPair :: "(string, int, int) SortView" where
  "svPair = \<lparr>sv_items = [''a'', ''b''], sv_sortColumn = Some valueColumn,
             sv_sortDirection = Ascending\<rparr>"

section \<open>Properties of the event bus\<close>

lemma indexOf_notin: "x \<notin> set xs \<Longrightarrow> indexOf xs x = -1"
  by (induction xs) auto


lemma indexOf_append_fresh:
  "x \<notin> set xs \<Longrightarrow> indexOf (xs @ [x]) x = int (length xs)"
  by (induction xs) (auto simp: Let_def)

lemma unsubscribe_last:
  "c \<notin> set cbs \<Longrightarrow> unsubscribe c (subscribe c cbs) = (cbs, False)"
  by (simp add: unsubscribe_def subscribe_def indexOf_append_fresh spliceOut_def)

text \<open>
  C9, as the code has it. When the handler returns, the collecting subscription is
  removed: a handler that leaves the subscriber list as it found it leaves the bus with
  the list it had before \<open>collect\<close>. When the handler throws, \<open>collect\<close> is left before
  the cancellation: the collecting closure stays subscribed, after the subscribers
  that were there before.
\<close>

theorem collect_unsubscribes_on_return_only:
  assumes "collector \<notin> set callbacks"
    and "handler (callbacks @ [collector]) = (callbacks @ [collector], thrown)"
  shows "collect collector handler callbacks =
           (if thrown = None then callbacks else callbacks @ [collector], thrown)"
proof (cases thrown)
  case None
  with assms show ?thesis
    using unsubscribe_last [of collector callbacks]
    by (simp add: collect_def subscribe_def)
next
  case (Some e)
  with assms show ?thesis
    by (simp add: collect_def subscribe_def)
qed

theorem collect_unsubscribes_on_return_only_witness:
  "collect (2::nat) (\<lambda>cs. (cs, None :: unit option)) [0, 1] = ([0, 1], None)
   \<and> collect (2::nat) (\<lambda>cs. (cs, Some ())) [0, 1] = ([0, 1, 2], Some ())"
  using collect_unsubscribes_on_return_only [of "2::nat" "[0, 1]" "\<lambda>cs. (cs, None :: unit option)" None]
        collect_unsubscribes_on_return_only [of "2::nat" "[0, 1]" "\<lambda>cs. (cs, Some ())" "Some ()"]
  by simp

text \<open>
  C9 as the specification states it fails: a handler that throws (and touches no
  subscription) leaves one subscriber more than before.
\<close>

theorem collect_throw_counterexample:
  "fst (collect (2::nat) (\<lambda>cs. (cs, Some ())) [0, 1]) \<noteq> [0, 1]"
  by (simp add: collect_def subscribe_def)

section \<open>Properties of the root collection\<close>

lemma rowsHeld_append: "rowsHeld (vs @ ws) = rowsHeld vs @ rowsHeld ws"
  by (induction vs rule: rowsHeld.induct) simp_all

lemma rowsHeld_member: "x \<in> set (rowsHeld vs) \<longleftrightarrow> Some x \<in> set vs"
  by (induction vs rule: rowsHeld.induct) auto

lemma rowsHeld_map_Some: "rowsHeld (map Some xs) = xs"
  by (induction xs) simp_all

lemma rowsHeld_spliceOut:
  "i < length vs \<Longrightarrow> mset (rowsHeld vs) = mset (rowsHeld (spliceOut i vs)) + mset (rowsHeld [vs ! i])"
proof -
  assume i: "i < length vs"
  then have "vs = take i vs @ [vs ! i] @ drop (Suc i) vs" by (simp add: id_take_nth_drop)
  then have "rowsHeld vs = rowsHeld (take i vs) @ rowsHeld [vs ! i] @ rowsHeld (drop (Suc i) vs)"
    by (metis rowsHeld_append)
  then show ?thesis by (simp add: spliceOut_def rowsHeld_append)
qed

lemma spliceOut_past_end: "length vs \<le> i \<Longrightarrow> spliceOut i vs = vs"
  by (simp add: spliceOut_def)

lemma rowsHeld_spliceIn: "mset (rowsHeld (spliceIn i v vs)) = mset (rowsHeld vs) + mset (rowsHeld [v])"
proof -
  have "rowsHeld vs = rowsHeld (take i vs) @ rowsHeld (drop i vs)"
    by (metis rowsHeld_append append_take_drop_id)
  moreover have "rowsHeld (spliceIn i v vs) = rowsHeld (take i vs) @ rowsHeld [v] @ rowsHeld (drop i vs)"
    by (simp only: spliceIn_def rowsHeld_append)
  ultimately show ?thesis by simp
qed

lemma consistent_mset:
  assumes "ds_consistent truthy g u ds" and "mset (rowsHeld vs) = mset (rowsHeld (ds_items ds))"
  shows "ds_consistent truthy g u (ds\<lparr>ds_items := vs\<rparr>)"
proof -
  have s: "set (rowsHeld vs) = set (rowsHeld (ds_items ds))" using assms(2) by (rule mset_eq_setD)
  have "mset (map g (rowsHeld vs)) = mset (map g (rowsHeld (ds_items ds)))"
    using assms(2) by (metis mset_map)
  then have "distinct (map g (rowsHeld vs)) = distinct (map g (rowsHeld (ds_items ds)))"
    by (rule mset_eq_imp_distinct_iff)
  then show ?thesis using assms(1) s by (simp add: ds_consistent_def)
qed

lemma consistent_lookup:
  "ds_consistent truthy g u ds \<Longrightarrow> Some x \<in> set (ds_items ds) \<Longrightarrow>
   lookupTruthy truthy inh (ds_itemById ds) (g x)"
  by (simp add: ds_consistent_def lookupTruthy_def rowsHeld_member)

lemma newDataSource_consistent: "ds_consistent truthy g u newDataSource"
  by (simp add: ds_consistent_def newDataSource_def)

lemma add_consistent:
  assumes c: "ds_consistent truthy g u ds" and t: "truthy it" and n: "Some (g it) \<noteq> u"
  shows "ds_consistent truthy g u (fst (snd (add truthy inh g h ds it)))"
proof (cases "lookupTruthy truthy inh (ds_itemById ds) (g it)")
  case True
  then show ?thesis using c by (simp add: add_def)
next
  case False
  have fresh: "\<forall>x \<in> set (rowsHeld (ds_items ds)). g x \<noteq> g it"
  proof
    fix x assume "x \<in> set (rowsHeld (ds_items ds))"
    then have "lookupTruthy truthy inh (ds_itemById ds) (g x)"
      using c by (simp add: ds_consistent_def lookupTruthy_def)
    then show "g x \<noteq> g it" using False by auto
  qed
  have st: "fst (snd (add truthy inh g h ds it))
          = (subscribeItemUpdates h ds it)\<lparr>ds_items := ds_items ds @ [Some it],
                                           ds_itemById := (ds_itemById ds)(g it \<mapsto> it)\<rparr>"
    using False by (simp add: add_def Let_def subscribeItemUpdates_def)
  show ?thesis unfolding st using c t n fresh
    by (auto simp: ds_consistent_def rowsHeld_append subscribeItemUpdates_def)
qed

lemma add_is_loop:
  "fst (snd (add truthy inh g h ds it)) = snd (addRange_loop truthy inh g h [it] ds)"
  by (simp add: add_def Let_def)

lemma addRange_loop_consistent:
  "ds_consistent truthy g u ds \<Longrightarrow> \<forall>r \<in> set its. truthy r \<and> Some (g r) \<noteq> u \<Longrightarrow>
   ds_consistent truthy g u (snd (addRange_loop truthy inh g h its ds))"
proof (induction its arbitrary: ds)
  case Nil
  then show ?case by simp
next
  case (Cons it its)
  show ?case
  proof (cases "lookupTruthy truthy inh (ds_itemById ds) (g it)")
    case True
    then show ?thesis using Cons.prems(1) by simp
  next
    case False
    let ?ds3 = "fst (snd (add truthy inh g h ds it))"
    have c3: "ds_consistent truthy g u ?ds3" using Cons.prems by (intro add_consistent) simp_all
    have "addRange_loop truthy inh g h (it # its) ds = addRange_loop truthy inh g h its ?ds3"
      using False by (simp add: add_def Let_def)
    then show ?thesis using Cons.IH [OF c3] Cons.prems(2) by simp
  qed
qed

lemma addRange_consistent:
  "ds_consistent truthy g u ds \<Longrightarrow> \<forall>r \<in> set its. truthy r \<and> Some (g r) \<noteq> u \<Longrightarrow>
   ds_consistent truthy g u (fst (snd (addRange truthy inh g h ds its)))"
  using addRange_loop_consistent [of truthy g u ds its inh h]
  by (cases "addRange_loop truthy inh g h its ds") (auto simp: addRange_def split: option.splits)

lemma removeAt_consistent:
  assumes c: "ds_consistent truthy g u ds"
  shows "ds_consistent truthy g u (fst (snd (removeAt g u ds index)))"
proof -
  let ?vs = "ds_items ds"
  let ?start = "spliceStart index (length ?vs)"
  show ?thesis
  proof (cases "?start < length ?vs")
    case False
    then have so: "spliceOut ?start ?vs = ?vs" by (simp add: spliceOut_past_end)
    have keep: "ds\<lparr>ds_items := ?vs\<rparr> = ds" by simp
    show ?thesis
    proof (cases u)
      case None
      then show ?thesis using False c so by (simp add: removeAt_def Let_def idOf_def)
    next
      case (Some k)
      have "\<forall>x \<in> set (rowsHeld ?vs). g x \<noteq> k" using c Some by (auto simp: ds_consistent_def)
      then have "ds_consistent truthy g u (ds\<lparr>ds_itemById := (ds_itemById ds)(k := None)\<rparr>)"
        using c by (simp add: ds_consistent_def)
      then show ?thesis using False Some so by (simp add: removeAt_def Let_def idOf_def)
    qed
  next
    case True
    note m = rowsHeld_spliceOut [OF True]
    show ?thesis
    proof (cases "?vs ! ?start")
      case None
      then have "mset (rowsHeld (spliceOut ?start ?vs)) = mset (rowsHeld ?vs)" using m by simp
      with c have c1: "ds_consistent truthy g u (ds\<lparr>ds_items := spliceOut ?start ?vs\<rparr>)"
        by (rule consistent_mset)
      show ?thesis
      proof (cases u)
        case None
        then show ?thesis using True \<open>?vs ! ?start = None\<close> c1 by (simp add: removeAt_def Let_def idOf_def)
      next
        case (Some k)
        have "\<forall>x \<in> set (rowsHeld (spliceOut ?start ?vs)). g x \<noteq> k"
          using c1 Some by (auto simp: ds_consistent_def)
        then have "ds_consistent truthy g u
             (ds\<lparr>ds_items := spliceOut ?start ?vs, ds_itemById := (ds_itemById ds)(k := None)\<rparr>)"
          using c1 by (simp add: ds_consistent_def)
        then show ?thesis using True Some \<open>?vs ! ?start = None\<close> by (simp add: removeAt_def Let_def idOf_def)
      qed
    next
      case (Some x)
      then have m': "mset (rowsHeld ?vs) = mset (rowsHeld (spliceOut ?start ?vs)) + {#x#}" using m by simp
      let ?rest = "rowsHeld (spliceOut ?start ?vs)"
      have "mset (map g (rowsHeld ?vs)) = mset (map g (x # ?rest))"
        using m' by (metis mset_map mset.simps(2) add_mset_add_single)
      moreover have "distinct (map g (rowsHeld ?vs))" using c by (simp add: ds_consistent_def)
      ultimately have d: "distinct (map g (x # ?rest))" by (metis mset_eq_imp_distinct_iff)
      have sub: "set ?rest \<subseteq> set (rowsHeld ?vs)"
        using m' by (metis mset_subset_eqD mset_subset_eq_add_left set_mset_mset subsetI)
      have "g x \<notin> g ` set ?rest" using d by simp
      then have nx: "\<forall>y \<in> set ?rest. g y \<noteq> g x" by (metis imageI)
      have dr: "distinct (map g ?rest)" using d by simp
      have all: "\<forall>y \<in> set ?rest. truthy y \<and> Some (g y) \<noteq> u \<and> ds_itemById ds (g y) = Some y"
        using c sub by (auto simp: ds_consistent_def)
      have "ds_consistent truthy g u
             (ds\<lparr>ds_items := spliceOut ?start ?vs, ds_itemById := (ds_itemById ds)(g x := None)\<rparr>)"
        using dr all nx by (simp add: ds_consistent_def)
      then show ?thesis using True Some by (simp add: removeAt_def Let_def idOf_def)
    qed
  qed
qed

lemma move_consistent:
  assumes c: "ds_consistent truthy g u ds"
  shows "ds_consistent truthy g u (fst (snd (move g u ds oIndex nIndex)))"
proof -
  let ?vs = "ds_items ds"
  let ?start = "spliceStart oIndex (length ?vs)"
  let ?it = "if ?start < length ?vs then ?vs ! ?start else None"
  let ?items1 = "spliceOut ?start ?vs"
  let ?items2 = "spliceIn (spliceStart nIndex (length ?items1)) ?it ?items1"
  have "mset (rowsHeld ?items1) + mset (rowsHeld [?it]) = mset (rowsHeld ?vs)"
  proof (cases "?start < length ?vs")
    case True
    then show ?thesis using rowsHeld_spliceOut [OF True] by simp
  next
    case False
    then show ?thesis by (simp add: spliceOut_past_end)
  qed
  then have "mset (rowsHeld ?items2) = mset (rowsHeld ?vs)" by (simp only: rowsHeld_spliceIn)
  with c have "ds_consistent truthy g u (ds\<lparr>ds_items := ?items2\<rparr>)" by (rule consistent_mset)
  moreover have "fst (snd (move g u ds oIndex nIndex)) = ds\<lparr>ds_items := ?items2\<rparr>"
    by (simp add: move_def Let_def split: option.splits)
  ultimately show ?thesis by simp
qed

lemma clear_consistent: "ds_consistent truthy g u (fst (snd (clear ds)))"
  by (simp add: clear_def ds_reset_def ds_consistent_def)

lemma call_consistent:
  assumes "ds_consistent truthy g u ds" and "\<forall>r \<in> set (rowsOf c). truthy r \<and> Some (g r) \<noteq> u"
  shows "ds_consistent truthy g u (fst (snd (ds_call truthy inh g u h c ds)))"
proof (cases c)
  case (CallAdd it)
  then show ?thesis using assms by (simp add: add_consistent)
next
  case (CallAddRange its)
  then show ?thesis using assms by (simp add: addRange_consistent)
next
  case (CallRemoveAt index)
  then show ?thesis using assms(1) by (simp add: removeAt_consistent)
next
  case (CallMove oIndex nIndex)
  then show ?thesis using assms(1) by (simp add: move_consistent)
next
  case CallReset
  then show ?thesis using assms(1) by (simp add: ds_reset_def)
next
  case CallClear
  then show ?thesis by (simp add: clear_consistent)
qed

lemma calls_consistent:
  "ds_consistent truthy g u ds \<Longrightarrow> \<forall>r \<in> set (concat (map rowsOf cs)). truthy r \<and> Some (g r) \<noteq> u \<Longrightarrow>
   ds_consistent truthy g u (ds_calls truthy inh g u h cs ds)"
proof (induction cs arbitrary: ds)
  case Nil
  then show ?case by simp
next
  case (Cons c cs)
  have "ds_consistent truthy g u (fst (snd (ds_call truthy inh g u h c ds)))"
    using Cons.prems by (intro call_consistent) simp_all
  then show ?case using Cons.IH Cons.prems(2) by simp
qed

lemma addRange_loop_fresh_prefix:
  "distinct (map g pre) \<Longrightarrow> \<forall>p \<in> set pre. \<not> lookupTruthy truthy inh (ds_itemById ds) (g p) \<Longrightarrow>
   addRange_loop truthy inh g h (pre @ rest) ds = addRange_loop truthy inh g h rest (addAll g h ds pre)"
proof (induction pre arbitrary: ds)
  case Nil
  show ?case by (cases ds) (simp add: addAll_def)
next
  case (Cons p pre)
  let ?ds3 = "(subscribeItemUpdates h ds p)\<lparr>ds_items := ds_items (subscribeItemUpdates h ds p) @ [Some p],
                ds_itemById := (ds_itemById (subscribeItemUpdates h ds p))(g p \<mapsto> p)\<rparr>"
  have fresh: "\<forall>q \<in> set pre. \<not> lookupTruthy truthy inh (ds_itemById ?ds3) (g q)"
  proof
    fix q assume q: "q \<in> set pre"
    have "g p \<notin> g ` set pre" using Cons.prems(1) by simp
    then have "g q \<noteq> g p" using q by (metis imageI)
    moreover have "\<not> lookupTruthy truthy inh (ds_itemById ds) (g q)" using Cons.prems(2) q by simp
    ultimately show "\<not> lookupTruthy truthy inh (ds_itemById ?ds3) (g q)"
      by (simp add: lookupTruthy_def subscribeItemUpdates_def)
  qed
  have d: "distinct (map g pre)" using Cons.prems by simp
  have step: "addRange_loop truthy inh g h ((p # pre) @ rest) ds = addRange_loop truthy inh g h (pre @ rest) ?ds3"
    using Cons.prems by (simp add: Let_def)
  have none: "map_of (map (\<lambda>p. (g p, p)) pre) (g p) = None"
    using Cons.prems by (simp add: map_of_eq_None_iff image_image)
  have eq: "addAll g h ?ds3 pre = addAll g h ds (p # pre)"
    using Cons.prems none
    by (auto simp: addAll_def subscribeItemUpdates_def map_add_def fun_eq_iff split: option.splits)
  show ?case using Cons.IH [OF d fresh] step eq by simp
qed

text \<open>
  C3, as the code has it. Take a collection made by any calls of \<open>add\<close>, \<open>addRange\<close>,
  \<open>removeAt\<close>, \<open>move\<close>, \<open>reset\<close> and \<open>clear\<close> that were given truthy rows only (as all
  objects are), none under an identifier that the accessor gives to \<open>undefined\<close>. When
  the identifier of a row is that of a row that the collection holds, \<open>add\<close> throws and
  leaves the collection as it was, with no event raised. \<open>addRange\<close> throws too and raises
  no event, but it checks and appends row by row: the rows of the batch before the
  offending one (here distinct in their identifiers, none of which the duplicate test
  finds) have been appended and registered when it throws. The collection is as before
  only when the offending row is the first of the batch.
\<close>

theorem duplicate_identifier_rejected:
  assumes "\<forall>r \<in> set (concat (map rowsOf cs)). truthy r \<and> Some (getItemId r) \<noteq> idOfUndefined"
    and "ds = ds_calls truthy inherited getItemId idOfUndefined h cs newDataSource"
    and "Some x \<in> set (ds_items ds)" and "getItemId x = getItemId it"
    and "distinct (map getItemId pre)"
    and "\<forall>p \<in> set pre. \<not> lookupTruthy truthy inherited (ds_itemById ds) (getItemId p)"
  shows "add truthy inherited getItemId h ds it = (Some (DuplicateId (getItemId it)), ds, [])
       \<and> addRange truthy inherited getItemId h ds (pre @ it # post)
           = (Some (DuplicateId (getItemId it)), addAll getItemId h ds pre, [])
       \<and> addRange truthy inherited getItemId h ds (it # post) = (Some (DuplicateId (getItemId it)), ds, [])"
proof -
  have c: "ds_consistent truthy getItemId idOfUndefined ds"
    unfolding assms(2) using newDataSource_consistent assms(1) by (rule calls_consistent)
  have hx: "x \<in> set (rowsHeld (ds_items ds))" using assms(3) by (simp add: rowsHeld_member)
  have tx: "truthy x" and "ds_itemById ds (getItemId x) = Some x"
    using c hx by (simp_all add: ds_consistent_def)
  then have st: "ds_itemById ds (getItemId it) = Some x" using assms(4) by simp
  have reg: "lookupTruthy truthy inherited (ds_itemById ds) (getItemId it)"
    using st tx by (simp add: lookupTruthy_def)
  have "getItemId it \<notin> getItemId ` set pre" using assms(6) reg by auto
  then have "map_of (map (\<lambda>p. (getItemId p, p)) pre) (getItemId it) = None"
    by (simp add: map_of_eq_None_iff image_image)
  then have reg': "lookupTruthy truthy inherited (ds_itemById (addAll getItemId h ds pre)) (getItemId it)"
    using st tx by (simp add: addAll_def map_add_def lookupTruthy_def)
  have a: "add truthy inherited getItemId h ds it = (Some (DuplicateId (getItemId it)), ds, [])"
    using reg by (simp add: add_def)
  have b: "addRange truthy inherited getItemId h ds (pre @ it # post)
           = (Some (DuplicateId (getItemId it)), addAll getItemId h ds pre, [])"
    using reg' addRange_loop_fresh_prefix [OF assms(5,6), of h "it # post"]
    by (simp add: addRange_def)
  have c: "addRange truthy inherited getItemId h ds (it # post) = (Some (DuplicateId (getItemId it)), ds, [])"
    using reg by (simp add: addRange_def)
  show ?thesis using a b c by simp
qed

lemma ds0_value: "ds0 = \<lparr>ds_items = [Some ''a''], ds_itemById = [''a'' \<mapsto> ''a''], ds_notifying = []\<rparr>"
  by (simp add: ds0_def newDataSource_def add_def lookupTruthy_def objectPrototypeMember_def
        subscribeItemUpdates_def Let_def)

theorem duplicate_identifier_rejected_witness:
  "add nonEmpty objectPrototypeMember (\<lambda>x. x) (\<lambda>x. False) ds0 ''a'' = (Some (DuplicateId ''a''), ds0, [])
   \<and> addRange nonEmpty objectPrototypeMember (\<lambda>x. x) (\<lambda>x. False) ds0 [''b'', ''a'', ''c'']
       = (Some (DuplicateId ''a''), addAll (\<lambda>x. x) (\<lambda>x. False) ds0 [''b''], [])
   \<and> ds_items (addAll (\<lambda>x. x) (\<lambda>x. False) ds0 [''b'']) = [Some ''a'', Some ''b'']"
proof -
  have 1: "\<forall>r \<in> set (concat (map rowsOf [CallAdd ''a''])). nonEmpty r \<and> Some ((\<lambda>x. x) r) \<noteq> None"
    by (simp add: nonEmpty_def)
  have 2: "ds0 = ds_calls nonEmpty objectPrototypeMember (\<lambda>x. x) None (\<lambda>x. False) [CallAdd ''a''] newDataSource"
    by (simp add: ds0_def)
  have 3: "Some ''a'' \<in> set (ds_items ds0)" by (simp add: ds0_value)
  have 5: "distinct (map (\<lambda>x. x) [''b''])" by simp
  have 6: "\<forall>p \<in> set [''b'']. \<not> lookupTruthy nonEmpty objectPrototypeMember (ds_itemById ds0) ((\<lambda>x. x) p)"
    by (simp add: ds0_value lookupTruthy_def objectPrototypeMember_def)
  have 7: "ds_items (addAll (\<lambda>x. x) (\<lambda>x. False) ds0 [''b'']) = [Some ''a'', Some ''b'']"
    by (simp add: ds0_value addAll_def)
  note t = duplicate_identifier_rejected [of "[CallAdd ''a'']" nonEmpty "\<lambda>x. x" None ds0
             objectPrototypeMember "\<lambda>x. False" "''a''" "''a''" "[''b'']" "[''c'']", OF 1 2 3 _ 5 6]
  show ?thesis using t 7 by simp
qed

text \<open>
  C3 as the specification states it fails for \<open>addRange\<close>: over the collection holding
  \<open>a\<close>, the batch \<open>[b, a]\<close> is rejected for \<open>a\<close>, and \<open>b\<close> has been appended.
\<close>

theorem addRange_partial_counterexample:
  "fst (addRange nonEmpty objectPrototypeMember (\<lambda>x. x) (\<lambda>x. False) ds0 [''b'', ''a'']) = Some (DuplicateId ''a'')
   \<and> ds_items (fst (snd (addRange nonEmpty objectPrototypeMember (\<lambda>x. x) (\<lambda>x. False) ds0 [''b'', ''a''])))
       = [Some ''a'', Some ''b'']
   \<and> ds_items ds0 = [Some ''a'']"
  by (simp add: addRange_def ds0_value subscribeItemUpdates_def Let_def lookupTruthy_def
        objectPrototypeMember_def nonEmpty_def)

text \<open>
  The duplicate test is one of truthiness. A row whose identifier names a member that a
  plain object inherits is rejected as a duplicate by a collection that holds nothing;
  and a falsy row, here the empty string, is stored but not found: the collection accepts
  it a second time and then holds two rows with one identifier. Neither is a case of C3
  above, which is about the rows a collection holds and, for the second, about truthy rows.
\<close>

lemma inherited_identifier_rejected:
  "add nonEmpty objectPrototypeMember (\<lambda>x. x) (\<lambda>x. False) newDataSource ''toString''
     = (Some (DuplicateId ''toString''), newDataSource, [])"
  by (simp add: add_def lookupTruthy_def objectPrototypeMember_def newDataSource_def)

lemma falsy_duplicate_accepted:
  "ds_items (ds_calls nonEmpty objectPrototypeMember (\<lambda>x. x) None (\<lambda>x. False) [CallAdd '''', CallAdd ''''] newDataSource)
     = [Some '''', Some '''']"
  by (simp add: add_def lookupTruthy_def objectPrototypeMember_def newDataSource_def nonEmpty_def
        subscribeItemUpdates_def Let_def)

text \<open>
  The collection never cancels its subscription to a row. A row that was removed and
  then notifies a change makes the collection raise an \<open>Update\<close> for a row it does not
  hold, at index \<open>-1\<close>.
\<close>

lemma update_of_removed_row:
  "itemChanged (\<lambda>x. x)
     (ds_calls nonEmpty objectPrototypeMember (\<lambda>x. x) None (\<lambda>x. True) [CallAdd ''a'', CallRemoveAt 0] newDataSource)
     ''a''
   = [change_update (Some ''a'') (Some ''a'') (-1)]
   \<and> ds_items (ds_calls nonEmpty objectPrototypeMember (\<lambda>x. x) None (\<lambda>x. True) [CallAdd ''a'', CallRemoveAt 0] newDataSource)
     = []"
  by (simp add: itemChanged_def add_def removeAt_def lookupTruthy_def objectPrototypeMember_def
        newDataSource_def nonEmpty_def subscribeItemUpdates_def spliceStart_def spliceOut_def idOf_def Let_def)

section \<open>Properties of the window view\<close>

lemma toInt32_of_int: "0 \<le> n \<Longrightarrow> n < 2 ^ 31 \<Longrightarrow> toInt32 (of_int n) = n"
  by (simp add: toInt32_def Let_def)

lemma toInt32_fraction: "-1 < x \<Longrightarrow> x < 0 \<Longrightarrow> toInt32 x = 0"
proof -
  assume a: "-1 < x" "x < 0"
  have "\<lceil>x\<rceil> = 0" using a by (simp add: ceiling_eq_iff)
  then show ?thesis using a by (simp add: toInt32_def)
qed

lemma wrap32_range:
  "- (2 ^ 31) \<le> (if (t::int) mod 2 ^ 32 \<ge> 2 ^ 31 then t mod 2 ^ 32 - 2 ^ 32 else t mod 2 ^ 32)
   \<and> (if t mod 2 ^ 32 \<ge> 2 ^ 31 then t mod 2 ^ 32 - 2 ^ 32 else t mod 2 ^ 32) < 2 ^ 31"
proof -
  have "0 \<le> t mod 2 ^ 32" "t mod 2 ^ 32 < 2 ^ 32" by simp_all
  then show ?thesis by auto
qed

lemma toInt32_range: "- (2 ^ 31) \<le> toInt32 x \<and> toInt32 x < 2 ^ 31"
  unfolding toInt32_def Let_def using wrap32_range by blast

lemma toInt32_idem: "toInt32 (of_int (toInt32 x)) = toInt32 x"
proof -
  have r: "- (2 ^ 31) \<le> toInt32 x \<and> toInt32 x < 2 ^ 31" by (rule toInt32_range)
  show ?thesis
  proof (cases "toInt32 x < 0")
    case True
    then have "real_of_int (toInt32 x) < 0" by simp
    then have "toInt32 (of_int (toInt32 x)) =
          (let m = toInt32 x mod 2 ^ 32 in if m \<ge> 2 ^ 31 then m - 2 ^ 32 else m)"
      unfolding toInt32_def [of "of_int (toInt32 x)"] by (simp add: Let_def)
    moreover have "toInt32 x mod 2 ^ 32 = toInt32 x + 2 ^ 32"
    proof -
      have "(toInt32 x + 2 ^ 32) mod 2 ^ 32 = toInt32 x + 2 ^ 32"
        using r True by (intro mod_pos_pos_trivial) auto
      then show ?thesis by simp
    qed
    ultimately show ?thesis using r True by (simp add: Let_def)
  next
    case False
    then show ?thesis using r toInt32_of_int [of "toInt32 x"] by simp
  qed
qed

lemma scrollDown_row:
  assumes "0 \<le> oldOffset" "0 \<le> wsize" "0 \<le> i"
  shows "(let removeIndex = oldOffset + i;
             insertIndex = oldOffset + wsize + i;
             validRemove = (removeIndex \<ge> 0 \<and> removeIndex < int (length items));
             validInsert = (insertIndex \<ge> 0 \<and> insertIndex < int (length items))
         in (if validRemove then
               (let removeItem = items ! nat removeIndex in
                if validInsert then
                  [change_replace (Some removeItem) (Some (getItemId removeItem)) 0
                     (Some (items ! nat insertIndex)) (Some (getItemId (items ! nat insertIndex)))
                     (wsize - 1) False]
                else [change_remove (Some removeItem) (Some (getItemId removeItem)) 0])
             else [])) = rowDown getItemId items wsize (nat (oldOffset + i))"
proof -
  have e1: "int (nat (oldOffset + i)) = oldOffset + i" using assms by simp
  have e2: "oldOffset + wsize + i = oldOffset + i + wsize" by simp
  have e3: "(nat (oldOffset + i) < length items) = (oldOffset + i < int (length items))"
    using assms by linarith
  have e4: "0 \<le> oldOffset + i" "0 \<le> oldOffset + i + wsize" using assms by simp_all
  show ?thesis
    unfolding rowDown_def Let_def e1 e2 e3 using e4 by simp
qed

lemma scrollDown_loop_rows:
  "0 \<le> oldOffset \<Longrightarrow> 0 \<le> wsize \<Longrightarrow> 0 \<le> i \<Longrightarrow> i \<le> diff \<Longrightarrow>
   scrollDown_loop getItemId items wsize oldOffset diff i
     = concat (map (rowDown getItemId items wsize) [nat (oldOffset + i) ..< nat (oldOffset + diff)])"
proof (induction getItemId items wsize oldOffset diff i rule: scrollDown_loop.induct)
  case (1 getItemId items wsize oldOffset diff i)
  show ?case
  proof (cases "i < diff")
    case False
    with "1.prems" have "i = diff" by simp
    then show ?thesis by (subst scrollDown_loop.simps) simp
  next
    case True
    have lt: "nat (oldOffset + i) < nat (oldOffset + diff)" using True "1.prems" by linarith
    have sc: "Suc (nat (oldOffset + i)) = nat (oldOffset + (i + 1))" using "1.prems" by linarith
    have upt: "[nat (oldOffset + i) ..< nat (oldOffset + diff)]
                 = nat (oldOffset + i) # [nat (oldOffset + (i + 1)) ..< nat (oldOffset + diff)]"
      using upt_conv_Cons [OF lt] sc by simp
    have p: "0 \<le> i + 1" "i + 1 \<le> diff" using True "1.prems" by simp_all
    have ih: "scrollDown_loop getItemId items wsize oldOffset diff (i + 1)
                = concat (map (rowDown getItemId items wsize) [nat (oldOffset + (i + 1)) ..< nat (oldOffset + diff)])"
      using "1.IH" [OF True refl refl refl refl "1.prems"(1) "1.prems"(2) p] .
    have unf: "scrollDown_loop getItemId items wsize oldOffset diff i
       = rowDown getItemId items wsize (nat (oldOffset + i))
           @ scrollDown_loop getItemId items wsize oldOffset diff (i + 1)"
      apply (subst scrollDown_loop.simps)
      using True scrollDown_row [OF "1.prems"(1) "1.prems"(2) "1.prems"(3), of items getItemId]
      by (simp only: if_True Let_def)
    show ?thesis unfolding unf ih upt by simp
  qed
qed

lemma scrollUp_row:
  assumes "0 \<le> newOffset" "0 \<le> wsize"
  shows "(let removeIndex = newOffset + wsize + int k;
          insertIndex = newOffset + int k;
          validRemove = (removeIndex \<ge> 0 \<and> removeIndex < int (length items));
          validInsert = (insertIndex \<ge> 0 \<and> insertIndex < int (length items))
      in (if validInsert then
            (let insertItem = items ! nat insertIndex in
             if validRemove then
               [change_replace (Some (items ! nat removeIndex)) (Some (getItemId (items ! nat removeIndex)))
                  (wsize - 1) (Some insertItem) (Some (getItemId insertItem)) 0 False]
             else [change_insert (Some insertItem) (Some (getItemId insertItem)) 0 (Some False)])
          else [])) = rowUp getItemId items wsize (nat newOffset + k)"
proof -
  have e0: "nat (newOffset + int k) = nat newOffset + k" using assms by linarith
  have e1: "int (nat newOffset + k) = newOffset + int k" using assms by simp
  have e2: "newOffset + wsize + int k = newOffset + int k + wsize" by simp
  have e3: "(nat newOffset + k < length items) = (newOffset + int k < int (length items))"
    using assms by linarith
  have e4: "0 \<le> newOffset + int k" "0 \<le> newOffset + int k + wsize" using assms by simp_all
  show ?thesis
    unfolding rowUp_def Let_def e0 e1 e2 e3 using e4 by simp
qed

lemma scrollUp_loop_rows:
  "0 \<le> newOffset \<Longrightarrow> 0 \<le> wsize \<Longrightarrow>
   scrollUp_loop getItemId items wsize newOffset k
     = concat (map (rowUp getItemId items wsize) (rev [nat newOffset ..< nat newOffset + k]))"
proof (induction k)
  case 0
  show ?case by simp
next
  case (Suc k)
  have unf: "scrollUp_loop getItemId items wsize newOffset (Suc k)
      = rowUp getItemId items wsize (nat newOffset + k) @ scrollUp_loop getItemId items wsize newOffset k"
    using scrollUp_row [OF Suc.prems, of k items getItemId]
    by (simp only: scrollUp_loop.simps Let_def)
  show ?case unfolding unf Suc.IH [OF Suc.prems] by simp
qed

lemma rowDown_length: "length (rowDown g items w r) = (if r < length items then 1 else 0)"
  by (simp add: rowDown_def)

lemma rowUp_length: "length (rowUp g items w r) = (if r < length items then 1 else 0)"
  by (simp add: rowUp_def)

lemma rowDown_ctype: "e \<in> set (rowDown g items w r) \<Longrightarrow> ctype e = Replace \<or> ctype e = Remove"
  by (auto simp: rowDown_def change_replace_def change_remove_def split: if_splits)

lemma rowUp_ctype: "e \<in> set (rowUp g items w r) \<Longrightarrow> ctype e = Replace \<or> ctype e = Insert"
  by (auto simp: rowUp_def change_replace_def change_insert_def split: if_splits)

lemma length_concat_rows_le:
  "(\<And>r. length (f r) \<le> 1) \<Longrightarrow> length (concat (map f rs)) \<le> length rs"
proof (induction rs)
  case Nil
  show ?case by simp
next
  case (Cons r rs)
  have "length (f r) \<le> 1" by (rule Cons.prems)
  moreover have "length (concat (map f rs)) \<le> length rs" using Cons by simp
  ultimately show ?case by simp
qed

lemma length_concat_rows_eq:
  "(\<And>r. r \<in> set rs \<Longrightarrow> length (f r) = 1) \<Longrightarrow> length (concat (map f rs)) = length rs"
  by (induction rs) simp_all

lemma shiftedRows_length_le:
  "length (shiftedRows g items w old new) \<le> (if old < new then new - old else old - new)"
proof (cases "old < new")
  case True
  have "length (concat (map (rowDown g items w) [old ..< new])) \<le> length [old ..< new]"
    by (rule length_concat_rows_le) (simp add: rowDown_length)
  with True show ?thesis by (simp add: shiftedRows_def)
next
  case False
  have "length (concat (map (rowUp g items w) (rev [new ..< old]))) \<le> length (rev [new ..< old])"
    by (rule length_concat_rows_le) (simp add: rowUp_length)
  with False show ?thesis by (simp add: shiftedRows_def)
qed

lemma shiftedRows_length_eq:
  assumes "old \<le> length items" "new \<le> length items"
  shows "length (shiftedRows g items w old new) = (if old < new then new - old else old - new)"
proof (cases "old < new")
  case True
  have "length (concat (map (rowDown g items w) [old ..< new])) = length [old ..< new]"
    using assms by (intro length_concat_rows_eq) (simp add: rowDown_length)
  with True show ?thesis by (simp add: shiftedRows_def)
next
  case False
  have "length (concat (map (rowUp g items w) (rev [new ..< old]))) = length (rev [new ..< old])"
    using assms by (intro length_concat_rows_eq) (simp add: rowUp_length)
  with False show ?thesis by (simp add: shiftedRows_def)
qed

lemma shiftedRows_ctype:
  "e \<in> set (shiftedRows g items w old new) \<Longrightarrow>
     ctype e = Replace \<or> (if old < new then ctype e = Remove else ctype e = Insert)"
  by (cases "old < new") (auto simp: shiftedRows_def dest: rowDown_ctype rowUp_ctype)

lemma setWindowOffset_int:
  assumes "0 \<le> n" "n < 2 ^ 31" "n \<noteq> offset wv" "0 \<le> offset wv"
  shows "setWindowOffset getItemId items wv (of_int n) =
           (None, wv\<lparr>offset := n\<rparr>,
            if 2 * \<bar>n - offset wv\<bar> \<ge> windowSize wv then [change_reset, change_scroll]
            else shiftedRows getItemId items (windowSize wv) (nat (offset wv)) (nat n) @ [change_scroll])"
proof -
  have t: "toInt32 (of_int n) = n" using assms by (simp add: toInt32_of_int)
  have half: "(real_of_int \<bar>n - offset wv\<bar> \<ge> real_of_int (windowSize wv) / 2)
                = (2 * \<bar>n - offset wv\<bar> \<ge> windowSize wv)"
  proof -
    have "(real_of_int (windowSize wv) / 2 \<le> real_of_int \<bar>n - offset wv\<bar>)
            = (real_of_int (windowSize wv) \<le> real_of_int (2 * \<bar>n - offset wv\<bar>))"
      by (simp add: field_simps)
    also have "\<dots> = (windowSize wv \<le> 2 * \<bar>n - offset wv\<bar>)"
      by (rule of_int_le_iff)
    finally show ?thesis .
  qed
  show ?thesis
  proof (cases "2 * \<bar>n - offset wv\<bar> \<ge> windowSize wv")
    case True
    then show ?thesis using assms t half by (simp add: setWindowOffset_def Let_def)
  next
    case False
    then have w: "0 \<le> windowSize wv" by (simp add: abs_if not_le split: if_splits)
    show ?thesis
    proof (cases "n > offset wv")
      case True
      have "scrollDown_loop getItemId items (windowSize wv) (offset wv) (n - offset wv) 0
              = concat (map (rowDown getItemId items (windowSize wv)) [nat (offset wv + 0) ..< nat (offset wv + (n - offset wv))])"
        using True assms w by (intro scrollDown_loop_rows) simp_all
      then have "scrollDown_loop getItemId items (windowSize wv) (offset wv) (n - offset wv) 0
              = shiftedRows getItemId items (windowSize wv) (nat (offset wv)) (nat n)"
        using True assms by (simp add: shiftedRows_def)
      then show ?thesis using True False assms t half by (simp add: setWindowOffset_def Let_def)
    next
      case False2: False
      then have lt: "n < offset wv" using assms by simp
      have k: "nat n + nat (offset wv - n) = nat (offset wv)" using lt assms by linarith
      have "scrollUp_loop getItemId items (windowSize wv) n (nat (offset wv - n))
              = concat (map (rowUp getItemId items (windowSize wv)) (rev [nat n ..< nat n + nat (offset wv - n)]))"
        using assms w by (intro scrollUp_loop_rows) simp_all
      then have "scrollUp_loop getItemId items (windowSize wv) n (nat (offset wv - n))
              = shiftedRows getItemId items (windowSize wv) (nat (offset wv)) (nat n)"
        using lt assms k by (simp add: shiftedRows_def)
      then show ?thesis using lt False assms t half by (simp add: setWindowOffset_def Let_def)
    qed
  qed
qed

text \<open>
  C6. For a new offset \<open>n\<close> (a non-negative integer below \<open>2^31\<close>) other than the
  current one, \<open>setWindowOffset\<close> stores it and raises: \<open>Reset\<close> then \<open>Scroll\<close> when
  the distance is at least half the window size, in particular when it is exactly half;
  otherwise the changes of the shifted rows, in the direction of the scroll, then one
  \<open>Scroll\<close>. Each shifted row gives a \<open>Replace\<close>, or a plain \<open>Remove\<close> (scrolling down) or
  \<open>Insert\<close> (scrolling up) where the upstream has no row for the other end of the window;
  there are at most as many as the distance, and exactly as many when both offsets lie
  within the upstream sequence.
\<close>

theorem setWindowOffset_reset_or_rows:
  assumes "0 \<le> n" "n < 2 ^ 31" "n \<noteq> offset wv" "0 \<le> offset wv"
  shows "setWindowOffset getItemId items wv (of_int n) =
           (None, wv\<lparr>offset := n\<rparr>,
            if 2 * \<bar>n - offset wv\<bar> \<ge> windowSize wv then [change_reset, change_scroll]
            else shiftedRows getItemId items (windowSize wv) (nat (offset wv)) (nat n) @ [change_scroll])
       \<and> (2 * \<bar>n - offset wv\<bar> = windowSize wv \<longrightarrow>
            snd (snd (setWindowOffset getItemId items wv (of_int n))) = [change_reset, change_scroll])
       \<and> length (shiftedRows getItemId items (windowSize wv) (nat (offset wv)) (nat n)) \<le> nat \<bar>n - offset wv\<bar>
       \<and> (offset wv \<le> int (length items) \<and> n \<le> int (length items) \<longrightarrow>
            length (shiftedRows getItemId items (windowSize wv) (nat (offset wv)) (nat n)) = nat \<bar>n - offset wv\<bar>)
       \<and> (\<forall>e \<in> set (shiftedRows getItemId items (windowSize wv) (nat (offset wv)) (nat n)).
            ctype e = Replace \<or> (if offset wv < n then ctype e = Remove else ctype e = Insert))"
proof -
  let ?rows = "shiftedRows getItemId items (windowSize wv) (nat (offset wv)) (nat n)"
  note main = setWindowOffset_int [OF assms, of getItemId items]
  have d: "(if nat (offset wv) < nat n then nat n - nat (offset wv) else nat (offset wv) - nat n)
             = nat \<bar>n - offset wv\<bar>"
    using assms by (simp split: if_splits) linarith
  have a: "length ?rows \<le> nat \<bar>n - offset wv\<bar>"
    using shiftedRows_length_le [of getItemId items "windowSize wv" "nat (offset wv)" "nat n"] d by simp
  have b: "offset wv \<le> int (length items) \<and> n \<le> int (length items) \<longrightarrow> length ?rows = nat \<bar>n - offset wv\<bar>"
  proof
    assume "offset wv \<le> int (length items) \<and> n \<le> int (length items)"
    then have "nat (offset wv) \<le> length items" "nat n \<le> length items" by linarith+
    from shiftedRows_length_eq [OF this, of getItemId "windowSize wv"] d
    show "length ?rows = nat \<bar>n - offset wv\<bar>" by simp
  qed
  have lt: "(nat (offset wv) < nat n) = (offset wv < n)" using assms by linarith
  have c: "\<forall>e \<in> set ?rows. ctype e = Replace \<or> (if offset wv < n then ctype e = Remove else ctype e = Insert)"
    using shiftedRows_ctype [of _ getItemId items "windowSize wv" "nat (offset wv)" "nat n"] lt by simp
  have h: "2 * \<bar>n - offset wv\<bar> = windowSize wv \<longrightarrow>
            snd (snd (setWindowOffset getItemId items wv (of_int n))) = [change_reset, change_scroll]"
    using main by simp
  show ?thesis using main a b c h by blast
qed

theorem setWindowOffset_reset_or_rows_witness:
  "setWindowOffset (\<lambda>x. x) abcdefg wv0 1 = (None, wv0\<lparr>offset := 1\<rparr>, [change_reset, change_scroll])
   \<and> setWindowOffset (\<lambda>x. x) abcdefg wv5 3
       = (None, wv5\<lparr>offset := 3\<rparr>,
          [change_replace (Some ''b'') (Some ''b'') 0 (Some ''g'') (Some ''g'') 4 False,
           change_remove (Some ''c'') (Some ''c'') 0,
           change_scroll])
   \<and> setWindowOffset (\<lambda>x. x) abcdefg wv5 0
       = (None, wv5\<lparr>offset := 0\<rparr>,
          [change_replace (Some ''f'') (Some ''f'') 4 (Some ''a'') (Some ''a'') 0 False,
           change_scroll])"
  using setWindowOffset_reset_or_rows [of 1 wv0 "\<lambda>x. x" abcdefg]
        setWindowOffset_reset_or_rows [of 3 wv5 "\<lambda>x. x" abcdefg]
        setWindowOffset_reset_or_rows [of 0 wv5 "\<lambda>x. x" abcdefg]
  by (simp add: wv0_def wv5_def abcdefg_def shiftedRows_def rowDown_def rowUp_def upt_conv_Cons)


text \<open>
  C7, as the code has it. On an upstream \<open>Remove\<close> at \<open>index\<close>, with \<open>sourceItems\<close> the
  upstream sequence after the removal: inside the window, the view raises a \<open>Replace\<close> of
  the removed row (at \<open>index - offset\<close>) by the upstream row that enters at the bottom of
  the window when the upstream still has \<open>offset + size\<close> rows, and a windowed \<open>Remove\<close> at
  \<open>index - offset\<close> only when it has fewer; either is followed by a \<open>Scroll\<close>. Before the
  window, the offset is decremented and only \<open>Scroll\<close> is raised; after the window, only
  \<open>Scroll\<close> is raised.
\<close>

theorem window_remove_translation:
  assumes "ctype event = Remove" and "0 \<le> offset wv"
  shows "wv_onSourceChanged getItemId sourceItems wv event =
     (if offset wv \<le> oldIndex event \<and> oldIndex event < offset wv + windowSize wv then
        (if offset wv + windowSize wv \<le> int (length sourceItems) then
           (None, wv,
            [change_replace (item event) (itemId event) (oldIndex event - offset wv)
               (Some (sourceItems ! nat (offset wv + windowSize wv - 1)))
               (Some (getItemId (sourceItems ! nat (offset wv + windowSize wv - 1))))
               (windowSize wv - 1) False,
             change_scroll])
         else (None, wv, [change_remove (item event) (itemId event) (oldIndex event - offset wv),
                          change_scroll]))
      else if oldIndex event < offset wv then (None, wv\<lparr>offset := offset wv - 1\<rparr>, [change_scroll])
      else (None, wv, [change_scroll]))"
proof (cases "offset wv \<le> oldIndex event \<and> oldIndex event < offset wv + windowSize wv")
  case True
  then have v: "isValidWindowIndex wv (toWindowIndex wv (oldIndex event))"
    by (simp add: isValidWindowIndex_def toWindowIndex_def)
  show ?thesis
  proof (cases "offset wv + windowSize wv \<le> int (length sourceItems)")
    case le: True
    have "itemAt sourceItems (offset wv + windowSize wv - 1)
            = Some (sourceItems ! nat (offset wv + windowSize wv - 1))"
      using True le assms by (simp add: itemAt_def)
    then show ?thesis
      using True le v assms by (simp add: wv_onSourceChanged_def wv_remove_def toWindowIndex_def)
  next
    case False
    then show ?thesis
      using True v assms by (simp add: wv_onSourceChanged_def wv_remove_def toWindowIndex_def)
  qed
next
  case False
  then have v: "\<not> isValidWindowIndex wv (toWindowIndex wv (oldIndex event))"
    by (auto simp: isValidWindowIndex_def toWindowIndex_def)
  show ?thesis
    using False v assms by (auto simp: wv_onSourceChanged_def toWindowIndex_def Let_def)
qed

theorem window_remove_translation_witness:
  "wv_onSourceChanged (\<lambda>x. x) bcd wv0 (change_remove (Some ''a'') (Some ''a'') 0)
     = (None, wv0, [change_replace (Some ''a'') (Some ''a'') 0 (Some ''c'') (Some ''c'') 1 False, change_scroll])
   \<and> wv_onSourceChanged (\<lambda>x. x) bcd wv5 (change_remove (Some ''a'') (Some ''a'') 1)
     = (None, wv5, [change_remove (Some ''a'') (Some ''a'') 0, change_scroll])
   \<and> wv_onSourceChanged (\<lambda>x. x) bcd wv5 (change_remove (Some ''a'') (Some ''a'') 0)
     = (None, wv5\<lparr>offset := 0\<rparr>, [change_scroll])
   \<and> wv_onSourceChanged (\<lambda>x. x) bcd wv0 (change_remove (Some ''a'') (Some ''a'') 2)
     = (None, wv0, [change_scroll])"
  using window_remove_translation [of "change_remove (Some ''a'') (Some ''a'') 0" wv0 "\<lambda>x. x" bcd]
        window_remove_translation [of "change_remove (Some ''a'') (Some ''a'') 1" wv5 "\<lambda>x. x" bcd]
        window_remove_translation [of "change_remove (Some ''a'') (Some ''a'') 0" wv5 "\<lambda>x. x" bcd]
        window_remove_translation [of "change_remove (Some ''a'') (Some ''a'') 2" wv0 "\<lambda>x. x" bcd]
  by (simp add: change_remove_def wv0_def wv5_def bcd_def)

text \<open>
  C7 as the specification states it fails: with a window of size 2 at offset 0 and the
  upstream \<open>[b, c, d]\<close> left by the removal of \<open>a\<close> at index 0, which lies inside the
  window, the changes raised are a \<open>Replace\<close> and a \<open>Scroll\<close>, with no \<open>Remove\<close>.
\<close>

theorem window_remove_replace_counterexample:
  "map ctype (snd (snd (wv_onSourceChanged (\<lambda>x. x) bcd wv0 (change_remove (Some ''a'') (Some ''a'') 0))))
     = [Replace, Scroll]"
  by (simp add: wv_onSourceChanged_def wv_remove_def toWindowIndex_def isValidWindowIndex_def
        itemAt_def change_remove_def change_replace_def change_scroll_def wv0_def bcd_def)

text \<open>
  C10. \<open>setWindowOffset\<close> truncates its argument before it tests anything: a fraction
  strictly between \<open>-1\<close> and \<open>0\<close> is handled as \<open>0\<close> and is not rejected; an argument whose
  truncation is the current offset returns at once, with no change raised, no error and
  the view as it was, whatever the sign; and every argument is handled as its truncation.
\<close>

theorem setWindowOffset_truncates_first:
  "(-1 < x \<and> x < 0 \<longrightarrow>
      setWindowOffset getItemId items wv x = setWindowOffset getItemId items wv 0
      \<and> fst (setWindowOffset getItemId items wv x) = None)
   \<and> (toInt32 x = offset wv \<longrightarrow> setWindowOffset getItemId items wv x = (None, wv, []))
   \<and> setWindowOffset getItemId items wv x = setWindowOffset getItemId items wv (of_int (toInt32 x))"
proof -
  have z: "toInt32 0 = 0" by (simp add: toInt32_def)
  have a: "-1 < x \<and> x < 0 \<longrightarrow>
      setWindowOffset getItemId items wv x = setWindowOffset getItemId items wv 0
      \<and> fst (setWindowOffset getItemId items wv x) = None"
  proof
    assume "-1 < x \<and> x < 0"
    then have t: "toInt32 x = 0" by (simp add: toInt32_fraction)
    have "setWindowOffset getItemId items wv x = setWindowOffset getItemId items wv 0"
      by (simp only: setWindowOffset_def t z)
    moreover have "fst (setWindowOffset getItemId items wv x) = None"
      by (simp add: setWindowOffset_def t Let_def)
    ultimately show "setWindowOffset getItemId items wv x = setWindowOffset getItemId items wv 0
      \<and> fst (setWindowOffset getItemId items wv x) = None" by simp
  qed
  have b: "toInt32 x = offset wv \<longrightarrow> setWindowOffset getItemId items wv x = (None, wv, [])"
    by (simp add: setWindowOffset_def)
  have c: "setWindowOffset getItemId items wv x = setWindowOffset getItemId items wv (of_int (toInt32 x))"
    by (simp only: setWindowOffset_def toInt32_idem)
  show ?thesis using a b c by blast
qed

theorem setWindowOffset_truncates_first_witness:
  "setWindowOffset (\<lambda>x. x) abcdefg wv5 (- 1 / 2) = setWindowOffset (\<lambda>x. x) abcdefg wv5 0
   \<and> fst (setWindowOffset (\<lambda>x. x) abcdefg wv5 (- 1 / 2)) = None
   \<and> setWindowOffset (\<lambda>x. x) abcdefg wv0 (- 1 / 2) = (None, wv0, [])
   \<and> setWindowOffset (\<lambda>x. x) abcdefg wvNeg (- 5 / 2) = (None, wvNeg, [])"
proof -
  have t1: "toInt32 (- 1 / 2) = offset wv0"
    using toInt32_fraction [of "- 1 / 2"] by (simp add: wv0_def)
  have t2: "toInt32 (- 5 / 2) = offset wvNeg"
    by (simp add: toInt32_def wvNeg_def)
  have x: "- 1 < (- 1 / 2 :: real) \<and> (- 1 / 2 :: real) < 0" by simp
  show ?thesis
    using setWindowOffset_truncates_first [of "- 1 / 2" "\<lambda>x. x" abcdefg wv5]
          setWindowOffset_truncates_first [of "- 1 / 2" "\<lambda>x. x" abcdefg wv0]
          setWindowOffset_truncates_first [of "- 5 / 2" "\<lambda>x. x" abcdefg wvNeg] t1 t2 x
    by blast
qed

section \<open>Properties of the filter view\<close>

































text \<open>
  An \<open>Update\<close> for a row that the upstream does not hold is outside C1 as stated above,
  and the root collection raises one when a row that it removed notifies a change. The
  view finds no flag for the row and appends it: after the upstream has inserted \<open>a\<close>,
  removed it and raised such an \<open>Update\<close>, the upstream is empty and the view shows \<open>a\<close>.
\<close>

lemma filter_view_update_of_removed_row:
  "map_option (\<lambda>p. (fv_items (p_view p), p_source p))
     (run (\<lambda>x. x) [DoInsert ''a'' 1 0 True, DoRemove 0, DoUpdate ''a'' 2]
        (newPipeline (\<lambda>x. x) (\<lambda>x. 0::int) [] None))
   = Some ([''a''], [])"
  by (simp add: newPipeline_def newFilterView_def setPredicate_def passes_def storable_def
        spliceIn_def spliceOut_def spliceStart_def spliceAt_def
        fv_onSourceChanged_def change_insert_def change_remove_def change_update_def
        keyOf_def fv_append_def fv_remove_def Let_def)

section \<open>Properties of the binary-search insertion and of the sort view\<close>

lemma findInsertionIndex_loop_le:
  "maxIndex < length items \<Longrightarrow> minIndex \<le> maxIndex \<or> minIndex \<le> length items \<Longrightarrow>
   findInsertionIndex_loop items target comparator minIndex maxIndex \<le> length items"
proof (induction items target comparator minIndex maxIndex rule: findInsertionIndex_loop.induct)
  case (1 items target comparator minIndex maxIndex)
  let ?index = "(minIndex + maxIndex) div 2"
  show ?case
  proof (cases "minIndex < maxIndex")
    case False
    then show ?thesis using "1.prems" by (subst findInsertionIndex_loop.simps) auto
  next
    case True
    then have b: "minIndex \<le> ?index" "?index < maxIndex" by linarith+
    have up: "findInsertionIndex_loop items target comparator (?index + 1) maxIndex \<le> length items"
      if "items ! ?index = target \<and> ?index \<noteq> 0 \<and> ?index \<noteq> length items - 1
            \<and> (comparator (items ! (?index - 1)) target < 0) \<noteq> (comparator target (items ! (?index + 1)) < 0)
            \<and> comparator (items ! (?index - 1)) target < 0
          \<or> items ! ?index \<noteq> target \<and> comparator target (items ! ?index) \<noteq> 0
            \<and> comparator target (items ! ?index) > 0"
      using that
    proof
      assume h: "items ! ?index = target \<and> ?index \<noteq> 0 \<and> ?index \<noteq> length items - 1
            \<and> (comparator (items ! (?index - 1)) target < 0) \<noteq> (comparator target (items ! (?index + 1)) < 0)
            \<and> comparator (items ! (?index - 1)) target < 0"
      show ?thesis
        using "1.IH"(1) [OF True refl refl _ _ _ refl refl] h "1.prems" b by auto
    next
      assume h: "items ! ?index \<noteq> target \<and> comparator target (items ! ?index) \<noteq> 0
            \<and> comparator target (items ! ?index) > 0"
      show ?thesis
        using "1.IH"(3) [OF True refl refl _ refl] h "1.prems" b by auto
    qed
    have i1: "?index - 1 < length items" "?index < length items" "minIndex \<le> length items"
      using b "1.prems" by linarith+
    have down1: "findInsertionIndex_loop items target comparator minIndex (?index - 1) \<le> length items"
      if "items ! ?index = target" "?index \<noteq> 0" "?index \<noteq> length items - 1"
         "(comparator (items ! (?index - 1)) target < 0) \<noteq> (comparator target (items ! (?index + 1)) < 0)"
         "\<not> comparator (items ! (?index - 1)) target < 0"
      using "1.IH"(2) [OF True refl refl _ _ _ refl refl] that "1.prems" b i1 by auto
    have down2: "findInsertionIndex_loop items target comparator minIndex ?index \<le> length items"
      if "items ! ?index \<noteq> target" "comparator target (items ! ?index) \<noteq> 0"
         "\<not> comparator target (items ! ?index) > 0"
      using "1.IH"(4) [OF True refl refl _ refl] that "1.prems" b i1 by auto
    have idx: "?index \<le> length items" using b "1.prems" by linarith
    show ?thesis
      apply (subst findInsertionIndex_loop.simps)
      using True up down1 down2 idx "1.prems" by (auto simp: Let_def)
  qed
qed

lemma findInsertionIndex_le: "findInsertionIndex items target comparator \<le> length items"
proof (cases "length items = 0")
  case True
  then show ?thesis by (simp add: findInsertionIndex_def)
next
  case False
  then have "findInsertionIndex_loop items target comparator 0 (length items - 1) \<le> length items"
    by (intro findInsertionIndex_loop_le) simp_all
  then show ?thesis using False by (simp add: findInsertionIndex_def)
qed

text \<open>
  A proof rule for the loop of \<open>findInsertionIndex\<close>: an invariant of \<open>minIndex\<close> and
  \<open>maxIndex\<close> that every branch of the body keeps, or that gives the postcondition
  where the branch returns, gives the postcondition of the result.
\<close>

lemma findInsertionIndex_loop_rule:
  fixes Inv :: "nat \<Rightarrow> nat \<Rightarrow> bool" and Post :: "nat \<Rightarrow> bool"
  assumes "Inv minIndex maxIndex"
    and "\<And>mn mx. Inv mn mx \<Longrightarrow> \<not> mn < mx \<Longrightarrow>
           Post (if mn = length items - 1 \<and> comparator (items ! (length items - 1)) target < 0
                 then length items else mn)"
    and "\<And>mn mx. Inv mn mx \<Longrightarrow> mn < mx \<Longrightarrow>
           (if items ! ((mn + mx) div 2) = target then
              (if (mn + mx) div 2 = 0 then Post mn
               else if (mn + mx) div 2 = length items - 1 then Post (length items - 1)
               else if (comparator (items ! ((mn + mx) div 2 - 1)) target < 0)
                        = (comparator target (items ! ((mn + mx) div 2 + 1)) < 0)
                 then Post ((mn + mx) div 2)
               else if comparator (items ! ((mn + mx) div 2 - 1)) target < 0
                 then Inv ((mn + mx) div 2 + 1) mx
               else Inv mn ((mn + mx) div 2 - 1))
            else
              (if comparator target (items ! ((mn + mx) div 2)) = 0 then Post ((mn + mx) div 2)
               else if comparator target (items ! ((mn + mx) div 2)) > 0
                 then Inv ((mn + mx) div 2 + 1) mx
               else Inv mn ((mn + mx) div 2)))"
  shows "Post (findInsertionIndex_loop items target comparator minIndex maxIndex)"
  using assms
proof (induction items target comparator minIndex maxIndex rule: findInsertionIndex_loop.induct)
  case (1 items target comparator minIndex maxIndex)
  note inv = "1.prems"(1) and exit = "1.prems"(2) and step = "1.prems"(3)
  let ?index = "(minIndex + maxIndex) div 2"
  let ?below = "comparator (items ! (?index - 1)) target < 0"
  let ?above = "comparator target (items ! (?index + 1)) < 0"
  let ?comp = "comparator target (items ! ?index)"
  show ?case
  proof (cases "minIndex < maxIndex")
    case False
    show ?thesis
      by (subst findInsertionIndex_loop.simps) (use False exit [OF inv False] in simp)
  next
    case True
    note s = step [OF inv True]
    show ?thesis
    proof (cases "items ! ?index = target")
      case hit: True
      show ?thesis
      proof (cases "?index = 0 \<or> ?index = length items - 1 \<or> ?below = ?above")
        case True
        then show ?thesis
          by (subst findInsertionIndex_loop.simps) (use \<open>minIndex < maxIndex\<close> hit s in \<open>auto simp: Let_def\<close>)
      next
        case False
        then have c: "?index \<noteq> 0" "?index \<noteq> length items - 1" "?below \<noteq> ?above" by auto
        show ?thesis
        proof (cases ?below)
          case b: True
          have inv': "Inv (?index + 1) maxIndex" using s hit c b by simp
          have "Post (findInsertionIndex_loop items target comparator (?index + 1) maxIndex)"
            using "1.IH"(1) [OF \<open>minIndex < maxIndex\<close> refl refl hit c(1) c(2) refl refl c(3) b inv' exit step] .
          then show ?thesis
            by (subst findInsertionIndex_loop.simps) (use \<open>minIndex < maxIndex\<close> hit c b in \<open>simp add: Let_def\<close>)
        next
          case b: False
          have inv': "Inv minIndex (?index - 1)" using s hit c b by simp
          have "Post (findInsertionIndex_loop items target comparator minIndex (?index - 1))"
            using "1.IH"(2) [OF \<open>minIndex < maxIndex\<close> refl refl hit c(1) c(2) refl refl c(3) b inv' exit step] .
          then show ?thesis
            by (subst findInsertionIndex_loop.simps) (use \<open>minIndex < maxIndex\<close> hit c b in \<open>simp add: Let_def\<close>)
        qed
      qed
    next
      case miss: False
      show ?thesis
      proof (cases "?comp = 0")
        case True
        then show ?thesis
          by (subst findInsertionIndex_loop.simps) (use \<open>minIndex < maxIndex\<close> miss s in \<open>simp add: Let_def\<close>)
      next
        case nz: False
        show ?thesis
        proof (cases "?comp > 0")
          case pos: True
          have inv': "Inv (?index + 1) maxIndex" using s miss nz pos by simp
          have "Post (findInsertionIndex_loop items target comparator (?index + 1) maxIndex)"
            using "1.IH"(3) [OF \<open>minIndex < maxIndex\<close> refl refl miss refl nz pos inv' exit step] .
          then show ?thesis
            by (subst findInsertionIndex_loop.simps) (use \<open>minIndex < maxIndex\<close> miss nz pos in \<open>simp add: Let_def\<close>)
        next
          case neg: False
          have inv': "Inv minIndex ?index" using s miss nz neg by simp
          have "Post (findInsertionIndex_loop items target comparator minIndex ?index)"
            using "1.IH"(4) [OF \<open>minIndex < maxIndex\<close> refl refl miss refl nz neg inv' exit step] .
          then show ?thesis
            by (subst findInsertionIndex_loop.simps) (use \<open>minIndex < maxIndex\<close> miss nz neg in \<open>simp add: Let_def\<close>)
        qed
      qed
    qed
  qed
qed

lemma cmp_refl: "is_comparator c \<Longrightarrow> c x x = 0"
proof -
  assume "is_comparator c"
  then have "(c x x < 0) = (c x x > 0)" unfolding is_comparator_def by blast
  then show ?thesis by linarith
qed

lemma cmp_pos_neg: "is_comparator c \<Longrightarrow> c x y > 0 \<Longrightarrow> c y x < 0"
  unfolding is_comparator_def by blast

lemma cmp_neg_pos: "is_comparator c \<Longrightarrow> c x y < 0 \<Longrightarrow> c y x > 0"
  unfolding is_comparator_def by blast

lemma cmp_flip: "is_comparator c \<Longrightarrow> \<not> c x y < 0 \<Longrightarrow> c y x \<le> 0"
proof -
  assume c: "is_comparator c" and n: "\<not> c x y < 0"
  have "\<not> c y x > 0" using c n unfolding is_comparator_def by blast
  then show ?thesis by simp
qed

lemma cmp_trans: "is_comparator c \<Longrightarrow> c x y \<le> 0 \<Longrightarrow> c y z \<le> 0 \<Longrightarrow> c x z \<le> 0"
  unfolding is_comparator_def by blast

lemma sorted_by_nth:
  assumes "is_comparator c" "sorted_by c xs" "i \<le> j" "j < length xs"
  shows "c (xs ! i) (xs ! j) \<le> 0"
proof (cases "i = j")
  case True
  then show ?thesis using assms(1) by (simp add: cmp_refl)
next
  case False
  then have "i < j" using assms(3) by simp
  then show ?thesis using assms(2,4) by (simp add: sorted_by_def sorted_wrt_iff_nth_less)
qed

lemma take_member_nth: "t \<in> set (take r xs) \<Longrightarrow> \<exists>j < r. j < length xs \<and> xs ! j = t"
  by (auto simp: in_set_conv_nth)

lemma findInsertionIndex_loop_point:
  assumes cmp: "is_comparator c" and srt: "sorted_by c items" and ne: "items \<noteq> []"
  shows "insertion_point c items t (findInsertionIndex_loop items t c 0 (length items - 1))"
proof -
  let ?n = "length items"
  define Inv where "Inv = (\<lambda>mn mx.
      mx < ?n \<and> mn \<le> ?n
      \<and> (\<forall>j < mn. c (items ! j) t \<le> 0)
      \<and> ((mx = ?n - 1 \<and> mn \<le> mx) \<or> (\<forall>j. mx \<le> j \<and> j < ?n \<longrightarrow> c t (items ! j) \<le> 0))
      \<and> (mn < ?n \<and> t \<in> set (take mn items) \<longrightarrow> c (items ! mn) t \<le> 0))"
  note nth = sorted_by_nth [OF cmp srt]
  have init: "Inv 0 (?n - 1)" using ne by (simp add: Inv_def)
  have exit: "insertion_point c items t
                (if mn = ?n - 1 \<and> c (items ! (?n - 1)) t < 0 then ?n else mn)"
    if i: "Inv mn mx" and x: "\<not> mn < mx" for mn mx
  proof (cases "mn = ?n - 1 \<and> c (items ! (?n - 1)) t < 0")
    case True
    have "\<forall>j < ?n. c (items ! j) t \<le> 0"
    proof (intro allI impI)
      fix j assume "j < ?n"
      then have "j < mn \<or> j = ?n - 1" using True by linarith
      then show "c (items ! j) t \<le> 0" using i True by (auto simp: Inv_def)
    qed
    then show ?thesis using True by (simp add: insertion_point_def)
  next
    case False
    have v2: "\<forall>j. mn \<le> j \<and> j < ?n \<longrightarrow> c t (items ! j) \<le> 0"
    proof (intro allI impI)
      fix j assume j: "mn \<le> j \<and> j < ?n"
      from i have "(mx = ?n - 1 \<and> mn \<le> mx) \<or> (\<forall>j. mx \<le> j \<and> j < ?n \<longrightarrow> c t (items ! j) \<le> 0)"
        by (simp add: Inv_def)
      then show "c t (items ! j) \<le> 0"
      proof
        assume a: "mx = ?n - 1 \<and> mn \<le> mx"
        then have "mn = ?n - 1" "j = ?n - 1" using x j by linarith+
        then show ?thesis using False cmp_flip [OF cmp] by auto
      next
        assume "\<forall>j. mx \<le> j \<and> j < ?n \<longrightarrow> c t (items ! j) \<le> 0"
        then show ?thesis using j x by auto
      qed
    qed
    show ?thesis using i v2 False by (auto simp: insertion_point_def Inv_def)
  qed
  have step: "(if items ! ((mn + mx) div 2) = t then
              (if (mn + mx) div 2 = 0 then insertion_point c items t mn
               else if (mn + mx) div 2 = ?n - 1 then insertion_point c items t (?n - 1)
               else if (c (items ! ((mn + mx) div 2 - 1)) t < 0)
                        = (c t (items ! ((mn + mx) div 2 + 1)) < 0)
                 then insertion_point c items t ((mn + mx) div 2)
               else if c (items ! ((mn + mx) div 2 - 1)) t < 0
                 then Inv ((mn + mx) div 2 + 1) mx
               else Inv mn ((mn + mx) div 2 - 1))
            else
              (if c t (items ! ((mn + mx) div 2)) = 0 then insertion_point c items t ((mn + mx) div 2)
               else if c t (items ! ((mn + mx) div 2)) > 0
                 then Inv ((mn + mx) div 2 + 1) mx
               else Inv mn ((mn + mx) div 2)))"
    if i: "Inv mn mx" and lt: "mn < mx" for mn mx
  proof -
    let ?i = "(mn + mx) div 2"
    have b: "mn \<le> ?i" "?i < mx" "mx < ?n" "?i < ?n" "?i + 1 < ?n" "?i \<noteq> ?n - 1"
      using lt i by (simp_all add: Inv_def) linarith+
    have i1: "\<forall>j < mn. c (items ! j) t \<le> 0" using i by (simp add: Inv_def)
    have i2: "(mx = ?n - 1 \<and> mn \<le> mx) \<or> (\<forall>j. mx \<le> j \<and> j < ?n \<longrightarrow> c t (items ! j) \<le> 0)"
      using i by (simp add: Inv_def)
    have i3: "mn < ?n \<and> t \<in> set (take mn items) \<longrightarrow> c (items ! mn) t \<le> 0"
      using i by (simp add: Inv_def)
    have i2up: "(mx = ?n - 1 \<and> ?i + 1 \<le> mx) \<or> (\<forall>j. mx \<le> j \<and> j < ?n \<longrightarrow> c t (items ! j) \<le> 0)"
      using i2 b by auto
    \<comment> \<open>the element at the probe bounds what lies on either side\<close>
    have below: "\<forall>j \<le> ?i. c (items ! j) (items ! ?i) \<le> 0" using nth b by simp
    have above: "\<forall>j. ?i \<le> j \<and> j < ?n \<longrightarrow> c (items ! ?i) (items ! j) \<le> 0" using nth by simp
    have point_at: "insertion_point c items t ?i"
      if l: "c (items ! ?i) t \<le> 0" and g: "c t (items ! ?i) \<le> 0"
    proof -
      have "\<forall>j < ?i. c (items ! j) t \<le> 0"
      proof (intro allI impI)
        fix j assume "j < ?i"
        then have "c (items ! j) (items ! ?i) \<le> 0" using below by simp
        then show "c (items ! j) t \<le> 0" using l cmp_trans [OF cmp] by blast
      qed
      moreover have "\<forall>j. ?i \<le> j \<and> j < ?n \<longrightarrow> c t (items ! j) \<le> 0"
      proof (intro allI impI)
        fix j assume "?i \<le> j \<and> j < ?n"
        then have "c (items ! ?i) (items ! j) \<le> 0" using above by simp
        then show "c t (items ! j) \<le> 0" using g cmp_trans [OF cmp] by blast
      qed
      ultimately show ?thesis using b l by (simp add: insertion_point_def)
    qed
    have inv_up: "Inv (?i + 1) mx"
      if l: "c (items ! ?i) t \<le> 0"
        and w: "t \<in> set (take (?i + 1) items) \<longrightarrow> c (items ! (?i + 1)) t \<le> 0"
    proof -
      have "\<forall>j < ?i + 1. c (items ! j) t \<le> 0"
      proof (intro allI impI)
        fix j assume "j < ?i + 1"
        then have "j \<le> ?i" by simp
        then have "c (items ! j) (items ! ?i) \<le> 0" using below by simp
        then show "c (items ! j) t \<le> 0" using l cmp_trans [OF cmp] by blast
      qed
      then show ?thesis using b i2up w by (simp add: Inv_def)
    qed
    have inv_down: "Inv mn k"
      if k: "k \<le> ?i" "mn \<le> k \<or> True" and g: "\<forall>j. k \<le> j \<and> j \<le> ?i \<longrightarrow> c t (items ! j) \<le> 0" for k
    proof -
      have "\<forall>j. k \<le> j \<and> j < ?n \<longrightarrow> c t (items ! j) \<le> 0"
      proof (intro allI impI)
        fix j assume j: "k \<le> j \<and> j < ?n"
        show "c t (items ! j) \<le> 0"
        proof (cases "j \<le> ?i")
          case True
          then show ?thesis using g j by simp
        next
          case False
          then have "c (items ! ?i) (items ! j) \<le> 0" using above j by simp
          moreover have "c t (items ! ?i) \<le> 0" using g k by simp
          ultimately show ?thesis using cmp_trans [OF cmp] by blast
        qed
      qed
      then show ?thesis using k b i1 i3 by (simp add: Inv_def)
    qed
    show ?thesis
    proof (cases "items ! ?i = t")
      case hit: True
      have tt: "c t t = 0" using cmp by (rule cmp_refl)
      show ?thesis
      proof (cases "?i = 0")
        case True
        then have "mn = 0" using b by simp
        moreover have "insertion_point c items t 0"
          using above hit True b by (simp add: insertion_point_def)
        ultimately show ?thesis using hit True by simp
      next
        case nz: False
        show ?thesis
        proof (cases "(c (items ! (?i - 1)) t < 0) = (c t (items ! (?i + 1)) < 0)")
          case True
          have "insertion_point c items t ?i" using point_at hit tt by simp
          then show ?thesis using hit nz b True by simp
        next
          case ne: False
          show ?thesis
          proof (cases "c (items ! (?i - 1)) t < 0")
            case True
            then have "\<not> c t (items ! (?i + 1)) < 0" using ne by simp
            then have "c (items ! (?i + 1)) t \<le> 0" using cmp_flip [OF cmp] by blast
            then have "Inv (?i + 1) mx" using inv_up hit tt by simp
            then show ?thesis using hit nz b ne True by simp
          next
            case False
            then have "c t (items ! (?i - 1)) \<le> 0" using cmp_flip [OF cmp] by blast
            moreover have "\<forall>j. ?i - 1 \<le> j \<and> j \<le> ?i \<longrightarrow> j = ?i - 1 \<or> j = ?i" by auto
            ultimately have "\<forall>j. ?i - 1 \<le> j \<and> j \<le> ?i \<longrightarrow> c t (items ! j) \<le> 0"
              using hit tt by auto
            then have "Inv mn (?i - 1)" using inv_down [of "?i - 1"] by simp
            then show ?thesis using hit nz b ne False by simp
          qed
        qed
      qed
    next
      case miss: False
      show ?thesis
      proof (cases "c t (items ! ?i) = 0")
        case True
        then have "c (items ! ?i) t \<le> 0" using cmp_flip [OF cmp, of t "items ! ?i"] by simp
        then have "insertion_point c items t ?i" using point_at True by simp
        then show ?thesis using miss True by simp
      next
        case nz: False
        show ?thesis
        proof (cases "c t (items ! ?i) > 0")
          case True
          then have s: "c (items ! ?i) t < 0" using cmp_pos_neg [OF cmp] by blast
          have "t \<notin> set (take (?i + 1) items)"
          proof
            assume "t \<in> set (take (?i + 1) items)"
            then obtain j where j: "j < ?i + 1" "items ! j = t" using take_member_nth by fast
            then have "c t (items ! ?i) \<le> 0" using below by auto
            then show False using True by simp
          qed
          then have "Inv (?i + 1) mx" using inv_up s by simp
          then show ?thesis using miss nz True by simp
        next
          case False
          then have "c t (items ! ?i) \<le> 0" by simp
          then have "\<forall>j. ?i \<le> j \<and> j \<le> ?i \<longrightarrow> c t (items ! j) \<le> 0" by auto
          then have "Inv mn ?i" using inv_down [of ?i] by simp
          then show ?thesis using miss nz False by simp
        qed
      qed
    qed
  qed
  show ?thesis
    by (rule findInsertionIndex_loop_rule [where Inv = Inv, OF init exit step])
qed

lemma drop_remove1_subset: "x \<in> set (drop r (remove1 t xs)) \<Longrightarrow> x \<in> set (drop r xs)"
proof (induction xs arbitrary: r)
  case Nil
  then show ?case by simp
next
  case (Cons y ys)
  show ?case
  proof (cases r)
    case 0
    then show ?thesis using Cons.prems set_remove1_subset [of t "y # ys"] by auto
  next
    case (Suc k)
    show ?thesis
    proof (cases "t = y")
      case True
      then have "x \<in> set (drop (Suc k) ys)" using Cons.prems Suc by simp
      moreover have "set (drop (Suc k) ys) \<subseteq> set (drop k ys)"
        by (rule set_drop_subset_set_drop) simp
      ultimately have "x \<in> set (drop k ys)" by blast
      then show ?thesis using Suc by simp
    next
      case False
      then show ?thesis using Cons Suc by simp
    qed
  qed
qed

lemma take_remove1_cases:
  "x \<in> set (take r (remove1 t xs)) \<Longrightarrow>
     x \<in> set (take r xs) \<or> (t \<in> set (take r xs) \<and> r < length xs \<and> x \<in> set (take (Suc r) xs))"
proof (induction xs arbitrary: r)
  case Nil
  then show ?case by simp
next
  case (Cons y ys)
  show ?case
  proof (cases r)
    case 0
    then show ?thesis using Cons.prems by simp
  next
    case (Suc k)
    show ?thesis
    proof (cases "t = y")
      case True
      then have m: "x \<in> set (take (Suc k) ys)" using Cons.prems Suc by simp
      show ?thesis
      proof (cases "k < length ys")
        case True
        then show ?thesis using m \<open>t = y\<close> Suc by simp
      next
        case False
        then have "take (Suc k) ys = take k ys" by simp
        then show ?thesis using m Suc by simp
      qed
    next
      case False
      then have "x = y \<or> x \<in> set (take k (remove1 t ys))" using Cons.prems Suc by simp
      then show ?thesis
      proof
        assume "x = y" then show ?thesis using Suc by simp
      next
        assume "x \<in> set (take k (remove1 t ys))"
        from Cons.IH [OF this] show ?thesis using Suc by auto
      qed
    qed
  qed
qed

lemma sorted_by_remove1: "sorted_by c xs \<Longrightarrow> sorted_by c (remove1 t xs)"
proof (induction xs)
  case Nil
  then show ?case by simp
next
  case (Cons y ys)
  have "set (remove1 t ys) \<subseteq> set ys" by (rule set_remove1_subset)
  with Cons show ?case by (auto simp: sorted_by_def)
qed

lemma sorted_by_spliceIn:
  assumes "sorted_by c ys"
    and "\<forall>x \<in> set (take r ys). c x t \<le> 0"
    and "\<forall>x \<in> set (drop r ys). c t x \<le> 0"
  shows "sorted_by c (spliceIn r t ys)"
proof -
  have "sorted_wrt (\<lambda>x y. c x y \<le> 0) (take r ys)
        \<and> sorted_wrt (\<lambda>x y. c x y \<le> 0) (drop r ys)
        \<and> (\<forall>x \<in> set (take r ys). \<forall>y \<in> set (drop r ys). c x y \<le> 0)"
    using assms(1) by (metis append_take_drop_id sorted_by_def sorted_wrt_append)
  then show ?thesis using assms(2,3)
    by (auto simp: sorted_by_def spliceIn_def sorted_wrt_append)
qed

lemma insertion_point_sorted:
  assumes cmp: "is_comparator c" and srt: "sorted_by c items"
    and ip: "insertion_point c items t r"
  shows "sorted_by c (spliceIn r t (remove1 t items))"
proof (rule sorted_by_spliceIn)
  show "sorted_by c (remove1 t items)" using srt by (rule sorted_by_remove1)
next
  show "\<forall>x \<in> set (drop r (remove1 t items)). c t x \<le> 0"
  proof
    fix x assume "x \<in> set (drop r (remove1 t items))"
    then have "x \<in> set (drop r items)" by (rule drop_remove1_subset)
    then obtain j where "j < length items - r" "x = items ! (r + j)"
      by (auto simp: in_set_conv_nth)
    then show "c t x \<le> 0" using ip by (simp add: insertion_point_def)
  qed
next
  show "\<forall>x \<in> set (take r (remove1 t items)). c x t \<le> 0"
  proof
    fix x assume "x \<in> set (take r (remove1 t items))"
    then have "x \<in> set (take r items)
        \<or> (t \<in> set (take r items) \<and> r < length items \<and> x \<in> set (take (Suc r) items))"
      by (rule take_remove1_cases)
    then show "c x t \<le> 0"
    proof
      assume "x \<in> set (take r items)"
      then obtain j where "j < r" "items ! j = x" using take_member_nth by fast
      then show ?thesis using ip by (auto simp: insertion_point_def)
    next
      assume a: "t \<in> set (take r items) \<and> r < length items \<and> x \<in> set (take (Suc r) items)"
      then obtain j where j: "j < Suc r" "items ! j = x" using take_member_nth by fast
      have "c (items ! j) (items ! r) \<le> 0"
        using sorted_by_nth [OF cmp srt, of j r] j a by simp
      moreover have "c (items ! r) t \<le> 0" using ip a by (simp add: insertion_point_def)
      ultimately show ?thesis using cmp_trans [OF cmp] j by blast
    qed
  qed
qed

lemma findInsertionIndex_point:
  assumes "is_comparator c" "sorted_by c items"
  shows "insertion_point c items t (findInsertionIndex items t c)"
proof (cases "items = []")
  case True
  then show ?thesis by (simp add: findInsertionIndex_def insertion_point_def)
next
  case False
  then show ?thesis
    using findInsertionIndex_loop_point [OF assms False, of t] by (simp add: findInsertionIndex_def)
qed

lemma cmp_strict_below:
  assumes cmp: "is_comparator c" and "c a b \<le> 0" and "c b t < 0"
  shows "c a t < 0"
proof (rule ccontr)
  assume "\<not> c a t < 0"
  then have "c t a \<le> 0" using cmp_flip [OF cmp] by blast
  then have "c t b \<le> 0" using assms(2) cmp_trans [OF cmp] by blast
  moreover have "c t b > 0" using assms(3) cmp_neg_pos [OF cmp] by blast
  ultimately show False by simp
qed

lemma cmp_strict_above:
  assumes cmp: "is_comparator c" and "c t a < 0" and "c a b \<le> 0"
  shows "c t b < 0"
proof (rule ccontr)
  assume "\<not> c t b < 0"
  then have "c b t \<le> 0" using cmp_flip [OF cmp] by blast
  then have "c a t \<le> 0" using assms(3) cmp_trans [OF cmp] by blast
  moreover have "c a t > 0" using assms(2) cmp_neg_pos [OF cmp] by blast
  ultimately show False by simp
qed

lemma findInsertionIndex_loop_position:
  assumes cmp: "is_comparator c" and srt: "sorted_by c items"
    and p: "p < length items" "items ! p = t"
    and lo: "0 < p \<longrightarrow> c (items ! (p - 1)) t < 0"
    and hi: "p + 1 < length items \<longrightarrow> c t (items ! (p + 1)) < 0"
  shows "findInsertionIndex_loop items t c 0 (length items - 1) = p"
proof -
  let ?n = "length items"
  note nth = sorted_by_nth [OF cmp srt]
  have tt: "c t t = 0" using cmp by (rule cmp_refl)
  have before: "c (items ! j) t < 0" if "j < p" for j
  proof -
    have "c (items ! j) (items ! (p - 1)) \<le> 0" using nth [of j "p - 1"] that p by simp
    moreover have "c (items ! (p - 1)) t < 0" using lo that by simp
    ultimately show ?thesis using cmp_strict_below [OF cmp] by blast
  qed
  have after: "c t (items ! j) < 0" if "p < j" "j < ?n" for j
  proof -
    have "c (items ! (p + 1)) (items ! j) \<le> 0" using nth [of "p + 1" j] that by simp
    moreover have "c t (items ! (p + 1)) < 0" using hi that by simp
    ultimately show ?thesis using cmp_strict_above [OF cmp] by blast
  qed
  have only: "j = p" if "j < ?n" "items ! j = t" for j
  proof (rule ccontr)
    assume "j \<noteq> p"
    then have "j < p \<or> p < j" by linarith
    then show False using before [of j] after [of j] that tt by auto
  qed
  define Inv where "Inv = (\<lambda>mn mx. mn \<le> p \<and> p \<le> mx \<and> mx < ?n)"
  have init: "Inv 0 (?n - 1)" using p by (simp add: Inv_def) linarith
  have exit: "(if mn = ?n - 1 \<and> c (items ! (?n - 1)) t < 0 then ?n else mn) = p"
    if i: "Inv mn mx" and x: "\<not> mn < mx" for mn mx
  proof -
    have e: "mn = p" using i x by (simp add: Inv_def)
    have "\<not> (mn = ?n - 1 \<and> c (items ! (?n - 1)) t < 0)"
    proof
      assume "mn = ?n - 1 \<and> c (items ! (?n - 1)) t < 0"
      then have "c (items ! p) t < 0" using e by simp
      then show False using p tt by simp
    qed
    then have "(if mn = ?n - 1 \<and> c (items ! (?n - 1)) t < 0 then ?n else mn) = mn"
      by (rule if_not_P)
    then show ?thesis using e by (simp only:)
  qed
  have step: "(if items ! ((mn + mx) div 2) = t then
              (if (mn + mx) div 2 = 0 then mn = p
               else if (mn + mx) div 2 = ?n - 1 then ?n - 1 = p
               else if (c (items ! ((mn + mx) div 2 - 1)) t < 0)
                        = (c t (items ! ((mn + mx) div 2 + 1)) < 0)
                 then (mn + mx) div 2 = p
               else if c (items ! ((mn + mx) div 2 - 1)) t < 0
                 then Inv ((mn + mx) div 2 + 1) mx
               else Inv mn ((mn + mx) div 2 - 1))
            else
              (if c t (items ! ((mn + mx) div 2)) = 0 then (mn + mx) div 2 = p
               else if c t (items ! ((mn + mx) div 2)) > 0
                 then Inv ((mn + mx) div 2 + 1) mx
               else Inv mn ((mn + mx) div 2)))"
    if i: "Inv mn mx" and lt: "mn < mx" for mn mx
  proof -
    let ?i = "(mn + mx) div 2"
    have b: "mn \<le> ?i" "?i < mx" "?i < ?n" "mn \<le> p" "p \<le> mx" "mx < ?n"
      using lt i by (simp_all add: Inv_def) linarith+
    show ?thesis
    proof (cases "items ! ?i = t")
      case hit: True
      then have e: "?i = p" using only b by simp
      have "c (items ! (?i - 1)) t < 0" if "?i \<noteq> 0" using lo e that by simp
      moreover have "c t (items ! (?i + 1)) < 0" if "?i \<noteq> ?n - 1" using hi e b that by simp
      ultimately show ?thesis using hit e b by auto
    next
      case miss: False
      then have "?i \<noteq> p" using p by auto
      then have "?i < p \<or> p < ?i" by linarith
      then show ?thesis
      proof
        assume l: "?i < p"
        then have "c (items ! ?i) t < 0" by (rule before)
        then have "c t (items ! ?i) > 0" using cmp_neg_pos [OF cmp] by blast
        then show ?thesis using miss l b by (simp add: Inv_def)
      next
        assume g: "p < ?i"
        then have "c t (items ! ?i) < 0" using after b by simp
        then show ?thesis using miss g b by (simp add: Inv_def)
      qed
    qed
  qed
  show ?thesis
    by (rule findInsertionIndex_loop_rule [where Inv = Inv and Post = "\<lambda>r. r = p", OF init exit step])
qed

lemma compare_is_comparator:
  "is_comparator (\<lambda>a b. compare (f a) (f b) sortDir :: int)"
  unfolding is_comparator_def
proof (intro conjI allI impI)
  fix x y
  show "(compare (f x) (f y) sortDir < 0) = (0 < compare (f y) (f x) sortDir)"
    by (cases "f x"; cases "f y"; cases sortDir) (auto simp: compare_def)
next
  fix x y z
  assume "compare (f x) (f y) sortDir \<le> 0 \<and> compare (f y) (f z) sortDir \<le> 0"
  then show "compare (f x) (f z) sortDir \<le> 0"
    by (cases "f x"; cases "f y"; cases "f z"; cases sortDir) (auto simp: compare_def split: if_splits)
qed

lemma byKey_is_comparator: "is_comparator byKey"
proof -
  have eq: "byKey = (\<lambda>a b. compare (Some (snd a)) (Some (snd b)) Ascending)"
    by (simp add: byKey_def fun_eq_iff)
  show ?thesis unfolding eq by (rule compare_is_comparator)
qed

text \<open>
  C2, as the code has it. For a comparator \<open>c\<close> and a sequence sorted according to
  \<open>c\<close> (the target, when it is a member, included), \<open>findInsertionIndex\<close> returns an
  index between \<open>0\<close> and the length, and taking the target out (if present) and
  inserting it at that index gives a sorted sequence. When the target is a member that
  sorts strictly after the element before it and strictly before the element after it,
  the index returned is its position. (With ties the index may be that of another
  element that compares equal to the target.)
\<close>

theorem findInsertionIndex_keeps_sorted:
  assumes "is_comparator c" and "sorted_by c items"
  shows "findInsertionIndex items t c \<le> length items
       \<and> sorted_by c (spliceIn (findInsertionIndex items t c) t (remove1 t items))
       \<and> (\<forall>p < length items.
             items ! p = t
             \<and> (0 < p \<longrightarrow> c (items ! (p - 1)) t < 0)
             \<and> (p + 1 < length items \<longrightarrow> c t (items ! (p + 1)) < 0)
             \<longrightarrow> findInsertionIndex items t c = p)"
proof -
  have ip: "insertion_point c items t (findInsertionIndex items t c)"
    using assms by (rule findInsertionIndex_point)
  have a: "findInsertionIndex items t c \<le> length items"
    using ip by (simp add: insertion_point_def)
  have b: "sorted_by c (spliceIn (findInsertionIndex items t c) t (remove1 t items))"
    using assms ip by (rule insertion_point_sorted)
  have c: "\<forall>p < length items.
             items ! p = t
             \<and> (0 < p \<longrightarrow> c (items ! (p - 1)) t < 0)
             \<and> (p + 1 < length items \<longrightarrow> c t (items ! (p + 1)) < 0)
             \<longrightarrow> findInsertionIndex items t c = p"
  proof (intro allI impI)
    fix p
    assume p: "p < length items"
      and h: "items ! p = t \<and> (0 < p \<longrightarrow> c (items ! (p - 1)) t < 0)
                \<and> (p + 1 < length items \<longrightarrow> c t (items ! (p + 1)) < 0)"
    from h have h1: "items ! p = t" and h2: "0 < p \<longrightarrow> c (items ! (p - 1)) t < 0"
      and h3: "p + 1 < length items \<longrightarrow> c t (items ! (p + 1)) < 0" by simp_all
    have "findInsertionIndex_loop items t c 0 (length items - 1) = p"
      using assms p h1 h2 h3 by (rule findInsertionIndex_loop_position)
    moreover have "length items \<noteq> 0" using p by linarith
    ultimately show "findInsertionIndex items t c = p" by (simp only: findInsertionIndex_def if_False)
  qed
  show ?thesis using a b c by blast
qed

theorem findInsertionIndex_keeps_sorted_witness:
  "is_comparator byKey \<and> sorted_by byKey abc123
   \<and> findInsertionIndex abc123 (''b'', 2) byKey = 1
   \<and> sorted_by byKey (spliceIn (findInsertionIndex abc123 (''b'', 2) byKey) (''b'', 2)
                        (remove1 (''b'', 2) abc123))
   \<and> sorted_by byKey (spliceIn (findInsertionIndex abc123 (''z'', 2) byKey) (''z'', 2)
                        (remove1 (''z'', 2) abc123))"
proof -
  have s: "sorted_by byKey abc123"
    by (simp add: sorted_by_def abc123_def byKey_def compare_def)
  note t1 = findInsertionIndex_keeps_sorted [OF byKey_is_comparator s, of "(''b'', 2)"]
  note t2 = findInsertionIndex_keeps_sorted [OF byKey_is_comparator s, of "(''z'', 2)"]
  have h: "1 < length abc123 \<and> abc123 ! 1 = (''b'', 2)
        \<and> (0 < (1::nat) \<longrightarrow> byKey (abc123 ! (1 - 1)) (''b'', 2) < 0)
        \<and> (1 + 1 < length abc123 \<longrightarrow> byKey (''b'', 2) (abc123 ! (1 + 1)) < 0)"
    by (simp add: abc123_def byKey_def compare_def)
  from h have h0: "1 < length abc123"
    and h1: "abc123 ! 1 = (''b'', 2)
        \<and> (0 < (1::nat) \<longrightarrow> byKey (abc123 ! (1 - 1)) (''b'', 2) < 0)
        \<and> (1 + 1 < length abc123 \<longrightarrow> byKey (''b'', 2) (abc123 ! (1 + 1)) < 0)"
    by simp_all
  have p1: "findInsertionIndex abc123 (''b'', 2) byKey = 1"
    by (rule t1 [THEN conjunct2, THEN conjunct2, rule_format, OF h0 h1])
  have s1: "sorted_by byKey (spliceIn (findInsertionIndex abc123 (''b'', 2) byKey) (''b'', 2)
                        (remove1 (''b'', 2) abc123))"
    by (rule t1 [THEN conjunct2, THEN conjunct1])
  have s2: "sorted_by byKey (spliceIn (findInsertionIndex abc123 (''z'', 2) byKey) (''z'', 2)
                        (remove1 (''z'', 2) abc123))"
    by (rule t2 [THEN conjunct2, THEN conjunct1])
  show ?thesis
    by (intro conjI) (rule byKey_is_comparator s p1 s1 s2)+
qed

text \<open>
  C2 as the specification states it fails on the last clause: \<open>[a, b]\<close> with equal
  sort values is sorted, \<open>b\<close> is at position 1 and in order with its neighbour, and
  the index returned for \<open>b\<close> is 0.
\<close>

theorem findInsertionIndex_tie_counterexample:
  "sorted_by byKey [(''a'', 1), (''b'', 1)]
   \<and> [(''a'', 1), (''b'', 1)] ! 1 = (''b'', 1)
   \<and> byKey (''a'', 1) (''b'', 1) \<le> 0
   \<and> findInsertionIndex [(''a'', 1), (''b'', 1)] (''b'', 1) byKey = 0"
proof -
  have "findInsertionIndex_loop [(''a'', 1), (''b'', 1)] (''b'', 1) byKey 0 1 = 0"
    by (subst findInsertionIndex_loop.simps) (simp add: byKey_def compare_def)
  then show ?thesis
    by (simp add: sorted_by_def byKey_def compare_def findInsertionIndex_def)
qed

text \<open>
  On a sequence of two elements whose first is the target, the search returns 0
  without a comparison, whatever the second element is.
\<close>

lemma findInsertionIndex_pair_head: "findInsertionIndex [t, b] t c = 0"
proof -
  have "findInsertionIndex_loop [t, b] t c 0 1 = 0"
    by (subst findInsertionIndex_loop.simps) simp
  then show ?thesis by (simp add: findInsertionIndex_def)
qed

lemma mset_insertSorted: "mset (insertSorted c x xs) = add_mset x (mset xs)"
  by (induction xs) auto

lemma set_insertSorted: "set (insertSorted c x xs) = insert x (set xs)"
  by (induction xs) auto

lemma mset_sortWith: "mset (sortWith c xs) = mset xs"
  by (induction xs) (simp_all add: sortWith_def mset_insertSorted)

lemma sorted_insertSorted:
  assumes cmp: "is_comparator c"
  shows "sorted_by c xs \<Longrightarrow> sorted_by c (insertSorted c x xs)"
proof (induction xs)
  case Nil
  show ?case by (simp add: sorted_by_def)
next
  case (Cons y ys)
  from Cons.prems have sy: "\<forall>z \<in> set ys. c y z \<le> 0" and st: "sorted_by c ys"
    by (simp_all add: sorted_by_def)
  show ?case
  proof (cases "c x y \<le> 0")
    case True
    have "\<forall>z \<in> set ys. c x z \<le> 0" using True sy cmp_trans [OF cmp] by blast
    then show ?thesis using True Cons.prems by (simp add: sorted_by_def)
  next
    case False
    then have "c y x \<le> 0" using cmp_flip [OF cmp, of x y] by simp
    moreover have "sorted_by c (insertSorted c x ys)" using st by (rule Cons.IH)
    ultimately show ?thesis using False sy by (simp add: sorted_by_def set_insertSorted)
  qed
qed

lemma sorted_sortWith: "is_comparator c \<Longrightarrow> sorted_by c (sortWith c xs)"
proof (induction xs)
  case Nil
  show ?case by (simp add: sortWith_def sorted_by_def)
next
  case (Cons x xs)
  then have "sorted_by c (insertSorted c x (sortWith c xs))" by (simp add: sorted_insertSorted)
  then show ?case by (simp add: sortWith_def)
qed

lemma sv_comparator_is_comparator: "is_comparator (sv_comparator rows column sortDir)"
proof -
  have eq: "sv_comparator rows column sortDir
              = (\<lambda>a b. compare (getSortValue column (rows a)) (getSortValue column (rows b)) sortDir)"
    by (simp add: sv_comparator_def fun_eq_iff)
  show ?thesis unfolding eq by (rule compare_is_comparator)
qed

text \<open>
  C5, as the code has it. With no column (\<open>null\<close>), \<open>setSortColumn\<close> clears the sort
  column, sets the direction to ascending and returns: the maintained sequence is left
  as it is and nothing is raised. With a column, the direction is toggled when the
  column is the active one and is the default of the column otherwise; the column
  becomes the active one, the maintained sequence is sorted again according to the
  column and the direction (same rows, now in order), and one \<open>Reset\<close> is raised.
\<close>

theorem setSortColumn_direction_then_reset:
  "setSortColumn rows sv None = (sv\<lparr>sv_sortColumn := None, sv_sortDirection := Ascending\<rparr>, [])
   \<and> sv_sortColumn (fst (setSortColumn rows sv (Some col))) = Some col
   \<and> sv_sortDirection (fst (setSortColumn rows sv (Some col))) = selectedDirection sv col
   \<and> sv_items (fst (setSortColumn rows sv (Some col)))
       = sortWith (sv_comparator rows col (selectedDirection sv col)) (sv_items sv)
   \<and> sorted_by (sv_comparator rows col (selectedDirection sv col))
        (sv_items (fst (setSortColumn rows sv (Some col))))
   \<and> mset (sv_items (fst (setSortColumn rows sv (Some col)))) = mset (sv_items sv)
   \<and> snd (setSortColumn rows sv (Some col)) = [change_reset]"
proof -
  let ?dir = "selectedDirection sv col"
  define same where
    "same = (\<exists>current. sv_sortColumn sv = Some current \<and> col_ref current = col_ref col)"
  have c: "(case sv_sortColumn sv of Some current \<Rightarrow> col_ref current = col_ref col | None \<Rightarrow> False)
             = same"
    unfolding same_def by (cases "sv_sortColumn sv") simp_all
  have d: "?dir = (if same then (if sv_sortDirection sv = Ascending then Descending else Ascending)
                   else getDefaultSortDirection col)"
    unfolding same_def selectedDirection_def by (rule refl)
  have res: "setSortColumn rows sv (Some col)
        = (sv\<lparr>sv_sortDirection := ?dir, sv_sortColumn := Some col,
               sv_items := sortWith (sv_comparator rows col ?dir) (sv_items sv)\<rparr>, [change_reset])"
    unfolding d by (simp add: setSortColumn_def sv_reset_def c Let_def)
  have a: "setSortColumn rows sv None = (sv\<lparr>sv_sortColumn := None, sv_sortDirection := Ascending\<rparr>, [])"
    by (simp add: setSortColumn_def)
  have s: "sorted_by (sv_comparator rows col ?dir) (sortWith (sv_comparator rows col ?dir) (sv_items sv))"
    using sv_comparator_is_comparator by (rule sorted_sortWith)
  show ?thesis using a s by (simp add: res mset_sortWith)
qed

theorem setSortColumn_direction_then_reset_witness:
  "setSortColumn rows123 svUnsorted (Some valueColumn)
     = (\<lparr>sv_items = [''c'', ''b'', ''a''], sv_sortColumn = Some valueColumn, sv_sortDirection = Descending\<rparr>,
        [change_reset])
   \<and> setSortColumn rows123 svByValue (Some valueColumn)
     = (\<lparr>sv_items = [''c'', ''b'', ''a''], sv_sortColumn = Some valueColumn, sv_sortDirection = Descending\<rparr>,
        [change_reset])
   \<and> setSortColumn rows123 svByValue None
     = (\<lparr>sv_items = [''a'', ''b'', ''c''], sv_sortColumn = None, sv_sortDirection = Ascending\<rparr>, [])"
proof -
  note t1 = setSortColumn_direction_then_reset [of rows123 svUnsorted valueColumn]
  note t2 = setSortColumn_direction_then_reset [of rows123 svByValue valueColumn]
  have d1: "selectedDirection svUnsorted valueColumn = Descending"
    by (simp add: selectedDirection_def svUnsorted_def valueColumn_def)
  have d2: "selectedDirection svByValue valueColumn = Descending"
    by (simp add: selectedDirection_def svByValue_def)
  have c1: "sortWith (sv_comparator rows123 valueColumn Descending) [''b'', ''c'', ''a''] = [''c'', ''b'', ''a'']"
    by (simp add: sortWith_def sv_comparator_def rows123_def valueColumn_def compare_def)
  have c2: "sortWith (sv_comparator rows123 valueColumn Descending) [''a'', ''b'', ''c''] = [''c'', ''b'', ''a'']"
    by (simp add: sortWith_def sv_comparator_def rows123_def valueColumn_def compare_def)
  have e1: "fst (setSortColumn rows123 svUnsorted (Some valueColumn))
      = \<lparr>sv_items = [''c'', ''b'', ''a''], sv_sortColumn = Some valueColumn, sv_sortDirection = Descending\<rparr>"
    using t1 d1 c1 by (intro SortView.equality) (simp_all add: svUnsorted_def)
  have e2: "fst (setSortColumn rows123 svByValue (Some valueColumn))
      = \<lparr>sv_items = [''c'', ''b'', ''a''], sv_sortColumn = Some valueColumn, sv_sortDirection = Descending\<rparr>"
    using t2 d2 c2 by (intro SortView.equality) (simp_all add: svByValue_def)
  have e3: "setSortColumn rows123 svByValue None
     = (\<lparr>sv_items = [''a'', ''b'', ''c''], sv_sortColumn = None, sv_sortDirection = Ascending\<rparr>, [])"
    using t2 by (simp add: svByValue_def)
  show ?thesis using e1 e2 e3 t1 t2 by (simp add: prod_eq_iff)
qed

text \<open>
  C5 as the specification states it fails for the key none: on a view sorted by a
  column, \<open>setSortColumn(null)\<close> raises nothing and leaves the sequence in its order.
\<close>

theorem setSortColumn_none_counterexample:
  "snd (setSortColumn rows123 svByValue None) = []
   \<and> sv_items (fst (setSortColumn rows123 svByValue None)) = [''a'', ''b'', ''c'']"
  by (simp add: setSortColumn_def svByValue_def)

text \<open>
  In the \<open>Update\<close> case the view takes the insertion index of the row from
  \<open>findInsertionIndex\<close>, run on the sequence that still holds the row where it was. For
  the first row of a view of two rows the search returns 0 without a comparison, so the
  view raises an \<open>Update\<close> at 0 and leaves its sequence, whatever the two rows hold now.
\<close>

lemma sortView_update_head_of_pair:
  assumes "ctype event = Update" and "item event = Some t"
    and "sv_sortColumn sv = Some column" and "sv_items sv = [t, b]"
  shows "sv_onSourceChanged rows sourceItems sv event = (sv, [change_update (Some t) (itemId event) 0])"
  using assms by (simp add: sv_onSourceChanged_def findInsertionIndex_pair_head Let_def)

text \<open>
  C4 fails on the code. The view sorted ascending by value holds \<open>[a, b]\<close>, where \<open>a\<close>
  held less than 2 and \<open>b\<close> holds 2. The row \<open>a\<close> changes to 9 and the upstream raises an
  \<open>Update\<close> for it. The sorted position of \<open>a\<close> is now 1, after \<open>b\<close> (sorting the two rows
  gives \<open>[b, a]\<close>), which is not its position 0: C4 has the view raise one \<open>Move\<close> to index
  1. The view raises an \<open>Update\<close> at 0, no \<open>Move\<close>, and keeps \<open>[a, b]\<close>, which is no longer
  sorted: \<open>a\<close> stands before \<open>b\<close> and compares after it.
\<close>

theorem sortView_update_leaves_pair_unsorted:
  "sv_onSourceChanged rows92 [''a'', ''b''] svPair (change_update (Some ''a'') (Some ''a'') 0)
     = (svPair, [change_update (Some ''a'') (Some ''a'') 0])
   \<and> sv_items svPair = [''a'', ''b'']
   \<and> sv_comparator rows92 valueColumn Ascending ''a'' ''b'' > 0
   \<and> sortWith (sv_comparator rows92 valueColumn Ascending) [''a'', ''b''] = [''b'', ''a'']"
proof -
  have "findInsertionIndex [''a'', ''b''] ''a'' (sv_comparator rows92 valueColumn Ascending) = 0"
    by (rule findInsertionIndex_pair_head)
  then have "sv_onSourceChanged rows92 [''a'', ''b''] svPair (change_update (Some ''a'') (Some ''a'') 0)
     = (svPair, [change_update (Some ''a'') (Some ''a'') 0])"
    by (simp add: sv_onSourceChanged_def svPair_def change_update_def Let_def)
  moreover have "sv_comparator rows92 valueColumn Ascending ''a'' ''b'' > 0"
    by (simp add: sv_comparator_def rows92_def valueColumn_def compare_def)
  moreover have "sortWith (sv_comparator rows92 valueColumn Ascending) [''a'', ''b''] = [''b'', ''a'']"
    by (simp add: sortWith_def sv_comparator_def rows92_def valueColumn_def compare_def)
  ultimately show ?thesis by (simp add: svPair_def)
qed

text \<open>
  The other way round, an \<open>Update\<close> for a row that has not changed can move it. The view
  sorted ascending by value holds \<open>[a, b, c]\<close> with the values 1, 1 and 2, and an \<open>Update\<close>
  arrives for \<open>b\<close>: the search finds \<open>b\<close> not below its equal neighbour \<open>a\<close> and goes on to
  return 0, and the view moves \<open>b\<close> from 1 to 0.
\<close>

lemma findInsertionIndex_tie_in_three:
  "findInsertionIndex [''a'', ''b'', ''c''] ''b'' (sv_comparator rows112 valueColumn Ascending) = 0"
  by code_simp

lemma sortView_update_moves_unchanged_row:
  "sv_onSourceChanged rows112 [''a'', ''b'', ''c''] svByValue (change_update (Some ''b'') (Some ''b'') 1)
     = (svByValue\<lparr>sv_items := [''b'', ''a'', ''c'']\<rparr>, [change_move (Some ''b'') (Some ''b'') 1 0])"
  by (simp add: sv_onSourceChanged_def svByValue_def change_update_def findInsertionIndex_tie_in_three
        spliceAt_def spliceIn_def spliceOut_def Let_def)

end
